theory Spec2Isabelle
  imports Main "HOL-Library.Sublist"
begin

section \<open>The job scraper of \<^verbatim>\<open>main.go\<close>\<close>

text \<open>
  The program fetches the pages of a careers listing one after the other, keeps the
  postings whose title passes a fixed keyword filter, and mails the kept postings.
  A Go \<^verbatim>\<open>string\<close> is a sequence of bytes, here a \<^typ>\<open>string\<close> (a list of 8-bit
  characters). The network, the HTML query library, the process environment and the
  mail relay are inputs of the model; whatever the program writes or sends is recorded
  in a list of events.
\<close>

subsection \<open>Data model\<close>

text \<open>\<^verbatim>\<open>type JobPosting struct { Title string; URL string }\<close>\<close>

record JobPosting =
  Title :: string
  URL :: string

subsection \<open>Substring tests of package \<^verbatim>\<open>strings\<close>\<close>

text \<open>
  \<^verbatim>\<open>strings.HasPrefix(s, prefix)\<close> compares bytes from the front;
  \<^verbatim>\<open>strings.Contains(s, substr)\<close> is \<^verbatim>\<open>Index(s, substr) >= 0\<close>: some position
  of \<open>s\<close> (the end included, for the empty \<open>substr\<close>) has \<open>substr\<close> as a prefix of
  what follows.
\<close>

fun HasPrefix :: "string \<Rightarrow> string \<Rightarrow> bool" where
  "HasPrefix s [] = True"
| "HasPrefix [] (p # ps) = False"
| "HasPrefix (c # cs) (p # ps) = (c = p \<and> HasPrefix cs ps)"

fun Contains :: "string \<Rightarrow> string \<Rightarrow> bool" where
  "Contains [] substr = HasPrefix [] substr"
| "Contains (c # cs) substr = (HasPrefix (c # cs) substr \<or> Contains cs substr)"

subsection \<open>Runes: packages \<^verbatim>\<open>unicode/utf8\<close> and \<^verbatim>\<open>unicode\<close>\<close>

text \<open>
  \<^verbatim>\<open>strings.TrimSpace\<close> works on runes (Unicode code points, here natural numbers),
  which it decodes from the UTF-8 bytes of the string. \<^verbatim>\<open>utf8.RuneError\<close> is the
  rune U+FFFD that every decoder returns for bytes that are not valid UTF-8.
\<close>

type_synonym rune = nat

definition RuneError :: rune where "RuneError = 0xFFFD"
definition RuneSelf :: nat where "RuneSelf = 0x80"
definition UTFMax :: int where "UTFMax = 4"

text \<open>
  The table \<^verbatim>\<open>first\<close> of package \<^verbatim>\<open>utf8\<close> classifies the leading byte of an
  encoding: ASCII (\<^verbatim>\<open>as\<close>), invalid (\<^verbatim>\<open>xx\<close>), or the start of an encoding of
  \<open>sz\<close> bytes whose second byte lies in the accept range \<open>lo..hi\<close>.
\<close>

datatype lead = AS | XX | Multi nat nat nat

definition first :: "nat \<Rightarrow> lead" where
  "first b =
     (if b < 0x80 then AS
      else if b < 0xC2 then XX
      else if b < 0xE0 then Multi 2 0x80 0xBF
      else if b = 0xE0 then Multi 3 0xA0 0xBF
      else if b < 0xED then Multi 3 0x80 0xBF
      else if b = 0xED then Multi 3 0x80 0x9F
      else if b < 0xF0 then Multi 3 0x80 0xBF
      else if b = 0xF0 then Multi 4 0x90 0xBF
      else if b < 0xF4 then Multi 4 0x80 0xBF
      else if b = 0xF4 then Multi 4 0x80 0x8F
      else XX)"

definition byte :: "string \<Rightarrow> nat \<Rightarrow> nat" where
  "byte s i = of_char (s ! i)"

text \<open>
  \<^verbatim>\<open>utf8.DecodeRuneInString(s)\<close>: the first rune of \<open>s\<close> and its width in bytes;
  \<open>(RuneError, 0)\<close> for the empty string and \<open>(RuneError, 1)\<close> for an invalid
  encoding. The masks and shifts of the source select disjoint bit fields, so
  \<^verbatim>\<open>rune(s0&mask2)<<6 | rune(s1&maskx)\<close> is \<open>(s0 mod 32) * 64 + s1 mod 64\<close>, and
  likewise for three and four bytes.
\<close>

definition DecodeRuneInString :: "string \<Rightarrow> rune \<times> nat" where
  "DecodeRuneInString s =
     (let n = length s in
      if n < 1 then (RuneError, 0)
      else
        let s0 = byte s 0 in
        case first s0 of
          AS \<Rightarrow> (s0, 1)
        | XX \<Rightarrow> (RuneError, 1)
        | Multi sz lo hi \<Rightarrow>
            if n < sz then (RuneError, 1)
            else
              let s1 = byte s 1 in
              if s1 < lo \<or> hi < s1 then (RuneError, 1)
              else if sz \<le> 2 then ((s0 mod 32) * 64 + s1 mod 64, 2)
              else
                let s2 = byte s 2 in
                if s2 < 0x80 \<or> 0xBF < s2 then (RuneError, 1)
                else if sz \<le> 3 then
                  ((s0 mod 16) * 4096 + (s1 mod 64) * 64 + s2 mod 64, 3)
                else
                  let s3 = byte s 3 in
                  if s3 < 0x80 \<or> 0xBF < s3 then (RuneError, 1)
                  else
                    ((s0 mod 8) * 262144 + (s1 mod 64) * 4096 + (s2 mod 64) * 64 +
                       s3 mod 64, 4))"

text \<open>\<^verbatim>\<open>utf8.RuneStart(b)\<close> is \<^verbatim>\<open>b&0xC0 != 0x80\<close>: \<open>b\<close> is not a continuation byte.\<close>

definition RuneStart :: "nat \<Rightarrow> bool" where
  "RuneStart b \<longleftrightarrow> \<not> (0x80 \<le> b \<and> b \<le> 0xBF)"

text \<open>
  \<^verbatim>\<open>utf8.DecodeLastRuneInString(s)\<close>: the last rune of \<open>s\<close> and its width. The
  function \<open>backup\<close> is its loop
  \<^verbatim>\<open>for start--; start >= lim; start-- { if RuneStart(s[start]) { break } }\<close>,
  which returns the final value of \<^verbatim>\<open>start\<close>.
\<close>

function backup :: "string \<Rightarrow> int \<Rightarrow> int \<Rightarrow> int" where
  "backup s start lim =
     (if start \<ge> lim then
        (if RuneStart (byte s (nat start)) then start else backup s (start - 1) lim)
      else start)"
  by pat_completeness auto
termination
  by (relation "measure (\<lambda>(s, start, lim). nat (start - lim + 1))") auto

declare backup.simps [simp del]

definition DecodeLastRuneInString :: "string \<Rightarrow> rune \<times> nat" where
  "DecodeLastRuneInString s =
     (let e = int (length s) in
      if e = 0 then (RuneError, 0)
      else
        let start = e - 1;
            r = byte s (nat start) in
        if r < RuneSelf then (r, 1)
        else
          let lim = (if e - UTFMax < 0 then 0 else e - UTFMax);
              start = backup s (start - 1) lim;
              start = (if start < 0 then 0 else start);
              (r, size) = DecodeRuneInString (drop (nat start) s)
          in if start + int size \<noteq> e then (RuneError, 1) else (r, size))"

text \<open>
  \<^verbatim>\<open>unicode.IsSpace(r)\<close>: in Latin-1 the characters tab, line feed, vertical tab,
  form feed, carriage return, space, U+0085 and U+00A0; beyond Latin-1 the characters of
  the Unicode property White_Space.
\<close>

definition IsSpace :: "rune \<Rightarrow> bool" where
  "IsSpace r \<longleftrightarrow>
     (if r \<le> 0xFF then
        r = 0x09 \<or> r = 0x0A \<or> r = 0x0B \<or> r = 0x0C \<or> r = 0x0D \<or> r = 0x20 \<or>
        r = 0x85 \<or> r = 0xA0
      else
        r = 0x1680 \<or> (0x2000 \<le> r \<and> r \<le> 0x200A) \<or> (0x2028 \<le> r \<and> r \<le> 0x2029) \<or>
        r = 0x202F \<or> r = 0x205F \<or> r = 0x3000)"

subsection \<open>Widths of decoded runes\<close>

text \<open>
  Both decoders consume at least one byte of a string that is not empty. The loops of
  the trimming functions below terminate for this reason.
\<close>

lemma first_Multi:
  "first b = Multi sz lo hi \<Longrightarrow> 2 \<le> sz \<and> sz \<le> 4 \<and> 0x80 \<le> lo \<and> hi \<le> 0xBF \<and> 0xC2 \<le> b \<and> b \<le> 0xF4"
  by (auto simp: first_def split: if_splits)

lemma first_AS: "first b = AS \<longleftrightarrow> b < 0x80"
  by (auto simp: first_def split: if_splits)

lemma Decode_Nil: "DecodeRuneInString [] = (RuneError, 0)"
  by (simp add: DecodeRuneInString_def)

lemma Decode_size:
  assumes "s \<noteq> []"
  shows "1 \<le> snd (DecodeRuneInString s) \<and> snd (DecodeRuneInString s) \<le> length s"
proof (cases "first (byte s 0)")
  case AS
  with assms show ?thesis by (simp add: DecodeRuneInString_def Let_def Suc_le_eq)
next
  case XX
  with assms show ?thesis by (simp add: DecodeRuneInString_def Let_def Suc_le_eq)
next
  case (Multi sz lo hi)
  from first_Multi [OF this] have "2 \<le> sz" "sz \<le> 4" by simp_all
  with assms Multi show ?thesis
    by (auto simp: DecodeRuneInString_def Let_def Suc_le_eq)
qed

lemma backup_bounds: "lim - 1 \<le> start \<Longrightarrow> lim - 1 \<le> backup s start lim \<and> backup s start lim \<le> start"
proof (induction s start lim rule: backup.induct)
  case (1 s start lim)
  show ?case
  proof (cases "start \<ge> lim \<and> \<not> RuneStart (byte s (nat start))")
    case True
    then have "lim - 1 \<le> start - 1" by simp
    from "1.IH" [OF _ _ this] True have "lim - 1 \<le> backup s (start - 1) lim \<and> backup s (start - 1) lim \<le> start - 1"
      by simp
    with True show ?thesis by (subst backup.simps, subst (2) backup.simps) simp
  next
    case False
    with "1.prems" show ?thesis by (subst backup.simps, subst (2) backup.simps) auto
  qed
qed

text \<open>
  What DecodeLastRuneInString returns: the last byte when it is ASCII; otherwise either
  RuneError of width 1, or a rune that the forward decoder reads from exactly the last
  bytes of the string.
\<close>
lemma DecodeLast_cases:
  assumes ne: "s \<noteq> []" and d: "DecodeLastRuneInString s = (r, n)"
  shows "(n = 1 \<and> r = byte s (length s - 1) \<and> r < 0x80) \<or>
         (n = 1 \<and> r = RuneError \<and> 0x80 \<le> byte s (length s - 1)) \<or>
         (0x80 \<le> byte s (length s - 1) \<and> 1 \<le> n \<and> n \<le> length s \<and>
            DecodeRuneInString (drop (length s - n) s) = (r, n))"
proof (cases "byte s (length s - 1) < 0x80")
  case True
  with ne have "DecodeLastRuneInString s = (byte s (length s - 1), 1)"
    by (simp add: DecodeLastRuneInString_def Let_def RuneSelf_def nat_diff_distrib')
  with d True show ?thesis by auto
next
  case False
  define e where "e = int (length s)"
  define lim where "lim = (if e - UTFMax < 0 then 0 else e - UTFMax)"
  define st0 where "st0 = backup s (e - 1 - 1) lim"
  define st where "st = (if st0 < 0 then 0 else st0)"
  have e: "1 \<le> e" using ne by (simp add: e_def Suc_le_eq)
  have "lim - 1 \<le> e - 1 - 1" using e by (simp add: lim_def UTFMax_def)
  from backup_bounds [OF this] have "st0 \<le> e - 2" by (simp add: st0_def)
  with e have st: "0 \<le> st" "st \<le> e - 1" by (simp_all add: st_def)
  obtain r' sz where dec: "DecodeRuneInString (drop (nat st) s) = (r', sz)"
    by (cases "DecodeRuneInString (drop (nat st) s)")
  have unf: "DecodeLastRuneInString s = (if st + int sz \<noteq> e then (RuneError, 1) else (r', sz))"
    using ne False dec
    unfolding DecodeLastRuneInString_def Let_def st_def st0_def lim_def e_def
    by (simp add: RuneSelf_def nat_diff_distrib')
  show ?thesis
  proof (cases "st + int sz \<noteq> e")
    case True
    with unf d False show ?thesis by simp
  next
    case eq: False
    with unf d have rn: "r = r'" "n = sz" by simp_all
    from eq st have "nat st = length s - sz" "1 \<le> sz" "sz \<le> length s"
      by (simp_all add: e_def)
    with dec rn False show ?thesis by simp
  qed
qed

lemma DecodeLast_size:
  "s \<noteq> [] \<Longrightarrow> 1 \<le> snd (DecodeLastRuneInString s) \<and> snd (DecodeLastRuneInString s) \<le> length s"
  using DecodeLast_cases [of s "fst (DecodeLastRuneInString s)" "snd (DecodeLastRuneInString s)"]
  by (auto simp: Suc_le_eq)

subsection \<open>Trimming: package \<^verbatim>\<open>strings\<close>\<close>

text \<open>
  \<^verbatim>\<open>indexFunc(s, f, truth)\<close> is the loop \<^verbatim>\<open>for i, r := range s\<close>, which decodes one
  rune after the other from index 0 and returns the index of the first rune with
  \<^verbatim>\<open>f(r) == truth\<close>, or -1.
\<close>

function indexFunc_from :: "string \<Rightarrow> (rune \<Rightarrow> bool) \<Rightarrow> bool \<Rightarrow> nat \<Rightarrow> int" where
  "indexFunc_from s f truth i =
     (if i < length s then
        (let (r, size) = DecodeRuneInString (drop i s) in
         if f r = truth then int i else indexFunc_from s f truth (i + size))
      else - 1)"
  by pat_completeness auto
termination
proof (relation "measure (\<lambda>(s, f, truth, i). length s - i)")
  show "wf (measure (\<lambda>(s, f, truth, i). length s - i))" by simp
next
  fix s :: string and f :: "rune \<Rightarrow> bool" and truth :: bool and i :: nat and x r size
  assume "i < length s" and "x = DecodeRuneInString (drop i s)" and "(r, size) = x"
  then have "0 < size" using Decode_size [of "drop i s"] by (cases "DecodeRuneInString (drop i s)") auto
  with \<open>i < length s\<close>
  show "((s, f, truth, i + size), (s, f, truth, i)) \<in> measure (\<lambda>(s, f, truth, i). length s - i)"
    by simp
qed

declare indexFunc_from.simps [simp del]

definition indexFunc :: "string \<Rightarrow> (rune \<Rightarrow> bool) \<Rightarrow> bool \<Rightarrow> int" where
  "indexFunc s f truth = indexFunc_from s f truth 0"

text \<open>
  \<^verbatim>\<open>lastIndexFunc(s, f, truth)\<close> decodes runes from the end: its loop variable \<open>i\<close>
  only ever selects the prefix \<^verbatim>\<open>s[0:i]\<close>, which is the argument of the recursive call.
\<close>

function lastIndexFunc :: "string \<Rightarrow> (rune \<Rightarrow> bool) \<Rightarrow> bool \<Rightarrow> int" where
  "lastIndexFunc s f truth =
     (if 0 < length s then
        (let (r, size) = DecodeLastRuneInString s;
             i = length s - size in
         if f r = truth then int i else lastIndexFunc (take i s) f truth)
      else - 1)"
  by pat_completeness auto
termination
proof (relation "measure (\<lambda>(s, f, truth). length s)")
  show "wf (measure (\<lambda>(s, f, truth). length s))" by simp
next
  fix s :: string and f :: "rune \<Rightarrow> bool" and truth :: bool and x r size i
  assume "0 < length s" and "x = DecodeLastRuneInString s" and "(r, size) = x"
    and "i = length s - size"
  then have "0 < size" using DecodeLast_size [of s] by (cases "DecodeLastRuneInString s") auto
  with \<open>0 < length s\<close> \<open>i = length s - size\<close>
  show "((take i s, f, truth), (s, f, truth)) \<in> measure (\<lambda>(s, f, truth). length s)"
    by simp
qed

declare lastIndexFunc.simps [simp del]

text \<open>
  \<^verbatim>\<open>TrimLeftFunc\<close>, \<^verbatim>\<open>TrimRightFunc\<close> and \<^verbatim>\<open>TrimFunc\<close> as in the package.
  \<^verbatim>\<open>TrimSpace(s)\<close> returns \<open>s\<close> without its leading and trailing white space as
  Unicode defines it, which is \<^verbatim>\<open>TrimFunc(s, unicode.IsSpace)\<close>. (Recent versions of the
  package first skip ASCII white space byte by byte, and fall back on these functions at
  the first byte that is not ASCII; the result is the same.)
\<close>

definition TrimLeftFunc :: "string \<Rightarrow> (rune \<Rightarrow> bool) \<Rightarrow> string" where
  "TrimLeftFunc s f =
     (let i = indexFunc s f False in
      if i = - 1 then [] else drop (nat i) s)"

definition TrimRightFunc :: "string \<Rightarrow> (rune \<Rightarrow> bool) \<Rightarrow> string" where
  "TrimRightFunc s f =
     (let i = lastIndexFunc s f False;
          i = (if i \<ge> 0 \<and> byte s (nat i) \<ge> RuneSelf
               then i + int (snd (DecodeRuneInString (drop (nat i) s)))
               else i + 1)
      in take (nat i) s)"

definition TrimFunc :: "string \<Rightarrow> (rune \<Rightarrow> bool) \<Rightarrow> string" where
  "TrimFunc s f = TrimRightFunc (TrimLeftFunc s f) f"

definition TrimSpace :: "string \<Rightarrow> string" where
  "TrimSpace s = TrimFunc s IsSpace"

text \<open>
  The width that \<^verbatim>\<open>TrimRightFunc\<close> adds to the index \<open>i\<close> that
  \<^verbatim>\<open>lastIndexFunc\<close> returns.
\<close>

definition width_at :: "string \<Rightarrow> nat \<Rightarrow> nat" where
  "width_at s i = (if RuneSelf \<le> byte s i then snd (DecodeRuneInString (drop i s)) else 1)"

subsection \<open>The title filter\<close>

text \<open>
  The condition of the \<^verbatim>\<open>if\<close> in the callback of \<^verbatim>\<open>jobItems.Each\<close>
  (lines 65 to 71 of \<^verbatim>\<open>main.go\<close>).
\<close>

definition titleFilter :: "string \<Rightarrow> bool" where
  "titleFilter title \<longleftrightarrow>
     Contains title ''Software Engineer'' \<and>
     \<not> Contains title ''Senior'' \<and>
     \<not> Contains title ''Staff'' \<and>
     \<not> Contains title ''Sr.'' \<and>
     \<not> Contains title ''Principal'' \<and>
     \<not> Contains title ''Android'' \<and>
     \<not> Contains title ''iOS''"

subsection \<open>The listing pages\<close>

text \<open>
  What the program reads of a job item: for the selection
  \<^verbatim>\<open>jobLink := s.Find("h3.text-size-4 a")\<close> of an item \<open>s\<close>, the result of
  \<^verbatim>\<open>jobLink.Text()\<close> and of \<^verbatim>\<open>jobLink.Attr("href")\<close> (\<open>None\<close> when the attribute
  does not exist).
\<close>

record item =
  LinkText :: string
  LinkHref :: "string option"

text \<open>
  \<^verbatim>\<open>goquery.NewDocumentFromReader\<close> fails with an error, or yields a document, of which
  the program reads the selection \<^verbatim>\<open>doc.Find("ul.job-list li[role='listitem']")\<close>:
  the list of its job items. \<^verbatim>\<open>http.Get\<close> fails with an error, or yields a response
  with a status code and a body.
\<close>

datatype document = ParseError string | Document "item list"

datatype http_result = GetError string | Response nat document

type_synonym web = "string \<Rightarrow> http_result"

subsection \<open>Formatting\<close>

text \<open>The verb \<^verbatim>\<open>%d\<close> of package \<^verbatim>\<open>fmt\<close>, for the numbers the program prints: none is negative.\<close>

fun Itoa :: "nat \<Rightarrow> string" where
  "Itoa n =
     (if n < 10 then [''0123456789'' ! n]
      else Itoa (n div 10) @ [''0123456789'' ! (n mod 10)])"

declare Itoa.simps [simp del]

definition baseURL :: string where
  "baseURL =
     ''https://careers.airbnb.com/positions/?_departments=engineering&_offices=united-states&_paged=''"

text \<open>\<^verbatim>\<open>url := fmt.Sprintf("%s%d", baseURL, page)\<close>\<close>

definition pageURL :: "nat \<Rightarrow> string" where
  "pageURL page = baseURL @ Itoa page"

subsection \<open>Events\<close>

text \<open>
  The arguments of \<^verbatim>\<open>smtp.PlainAuth(identity, username, password, host)\<close> and of
  \<^verbatim>\<open>smtp.SendMail(addr, auth, from, to, msg)\<close>.
\<close>

record PlainAuth =
  auth_identity :: string
  auth_username :: string
  auth_password :: string
  auth_host :: string

record SendMailCall =
  call_addr :: string
  call_auth :: PlainAuth
  call_from :: string
  call_to :: "string list"
  call_msg :: string

text \<open>
  What a run does to the outside, in order: a write to standard output, a request
  \<^verbatim>\<open>http.Get(url)\<close>, a call of \<^verbatim>\<open>log.Fatalf\<close> (which writes the message to standard
  error and ends the process with status 1), a call of \<^verbatim>\<open>smtp.SendMail\<close>.
\<close>

datatype event = Stdout string | HttpGet string | Fatalf string | SendMail SendMailCall

text \<open>The requests, the mail submissions and the fatal messages of a run.\<close>

fun fetches :: "event list \<Rightarrow> string list" where
  "fetches [] = []"
| "fetches (HttpGet url # es) = url # fetches es"
| "fetches (e # es) = fetches es"

fun mails :: "event list \<Rightarrow> SendMailCall list" where
  "mails [] = []"
| "mails (SendMail c # es) = c # mails es"
| "mails (e # es) = mails es"

fun fatals :: "event list \<Rightarrow> string list" where
  "fatals [] = []"
| "fatals (Fatalf m # es) = m # fatals es"
| "fatals (e # es) = fatals es"

subsection \<open>The Collector: the pagination loop of \<^verbatim>\<open>main\<close>\<close>

text \<open>
  The callback of \<^verbatim>\<open>jobItems.Each\<close> (lines 54 to 77), run on one item: it appends
  the posting to \<^verbatim>\<open>allJobs\<close> when the trimmed title passes the filter.
\<close>

definition visit :: "item \<Rightarrow> JobPosting list \<Rightarrow> JobPosting list" where
  "visit s allJobs =
     (let title = TrimSpace (LinkText s);
          link = (case LinkHref s of Some href \<Rightarrow> href | None \<Rightarrow> '''')
      in if titleFilter title then allJobs @ [\<lparr>Title = title, URL = link\<rparr>] else allJobs)"

text \<open>\<^verbatim>\<open>jobItems.Each(f)\<close> runs the callback on the items in document order.\<close>

definition Each :: "item list \<Rightarrow> JobPosting list \<Rightarrow> JobPosting list" where
  "Each jobItems allJobs = fold visit jobItems allJobs"

text \<open>
  The \<^verbatim>\<open>for\<close> loop of \<^verbatim>\<open>main\<close> (lines 27 to 86), from the head of an iteration with
  the values of \<^verbatim>\<open>page\<close> and \<^verbatim>\<open>allJobs\<close> and the events so far. The loop has no
  bound, and runs forever on a site of which every page has ten items: the result
  \<open>None\<close> is a loop that does not end. A loop that ends returns the events, and
  \<open>Some allJobs\<close> after a \<^verbatim>\<open>break\<close>, or \<open>None\<close> after \<^verbatim>\<open>log.Fatalf\<close>. The page
  number is a Go \<^verbatim>\<open>int\<close> of 64 bits, which no run can overflow one page at a time; it
  is a natural number here.
\<close>

partial_function (option) collect ::
  "web \<Rightarrow> nat \<Rightarrow> JobPosting list \<Rightarrow> event list \<Rightarrow> (JobPosting list option \<times> event list) option"
where
  "collect web page allJobs out =
     (let url = pageURL page;
          out = out @ [Stdout (''Fetching page '' @ Itoa page @ '': '' @ url @ ''\<newline>''),
                       HttpGet url]
      in case web url of
           GetError err \<Rightarrow>
             Some (None, out @ [Fatalf (''Error fetching page '' @ Itoa page @ '': '' @ err)])
         | Response StatusCode body \<Rightarrow>
             if StatusCode \<noteq> 200 then
               Some (None, out @ [Fatalf (''Non-200 HTTP status on page '' @ Itoa page @ '': '' @
                                            Itoa StatusCode)])
             else
               (case body of
                  ParseError err \<Rightarrow>
                    Some (None, out @ [Fatalf (''Error parsing HTML on page '' @ Itoa page @
                                                 '': '' @ err)])
                | Document jobItems \<Rightarrow>
                    if length jobItems = 0 then
                      Some (Some allJobs,
                            out @ [Stdout ''No job listings found on this page; ending pagination.\<newline>''])
                    else
                      let allJobs = Each jobItems allJobs in
                      if length jobItems < 10 then
                        Some (Some allJobs,
                              out @ [Stdout ''Fewer than 10 job items found; likely the last page.\<newline>''])
                      else collect web (page + 1) allJobs out))"

text \<open>
  The loop seen from outside: the values of \<^verbatim>\<open>page\<close> and \<^verbatim>\<open>allJobs\<close> at the head of
  iteration \<open>n\<close> (counted from 0), when the loop gets there.
\<close>

primrec loop_head :: "web \<Rightarrow> nat \<Rightarrow> (nat \<times> JobPosting list) option" where
  "loop_head web 0 = Some (1, [])"
| "loop_head web (Suc n) =
     (case loop_head web n of
        None \<Rightarrow> None
      | Some (page, allJobs) \<Rightarrow>
          (case web (pageURL page) of
             Response StatusCode (Document jobItems) \<Rightarrow>
               if StatusCode = 200 \<and> 10 \<le> length jobItems
               then Some (page + 1, Each jobItems allJobs) else None
           | _ \<Rightarrow> None))"

subsection \<open>The Notifier: \<^verbatim>\<open>sendDailyJobEmail\<close>\<close>

text \<open>\<^verbatim>\<open>os.Getenv(key)\<close> is the value of the variable, and the empty string when it is not set.\<close>

type_synonym environ = "string \<Rightarrow> string option"

definition Getenv :: "environ \<Rightarrow> string \<Rightarrow> string" where
  "Getenv env key = (case env key of Some v \<Rightarrow> v | None \<Rightarrow> '''')"

definition CRLF :: string where
  "CRLF = [CHR 0x0D, CHR 0x0A]"

text \<open>\<^verbatim>\<open>fmt.Sprintf("- %s: %s\n", job.Title, job.URL)\<close>\<close>

definition postingLine :: "JobPosting \<Rightarrow> string" where
  "postingLine job = ''- '' @ Title job @ '': '' @ URL job @ ''\<newline>''"

text \<open>
  The \<^verbatim>\<open>strings.Builder\<close> named \<^verbatim>\<open>body\<close> (lines 108 to 122): every
  \<^verbatim>\<open>body.WriteString\<close> appends to what is written so far.
\<close>

definition composeBody :: "JobPosting list \<Rightarrow> string" where
  "composeBody jobPostings =
     (let body = '''';
          body =
            (if length jobPostings = 0
             then body @ ''Hello,\<newline>\<newline>No current job postings found today.\<newline>''
             else body @ ''Hello,\<newline>\<newline>Here are today's midlevel Software Engineer job postings:\<newline>\<newline>'');
          body = fold (\<lambda>job body. body @ postingLine job) jobPostings body;
          body = body @ ''\<newline> You can find more job postings at https://careers.airbnb.com/positions/?_departments=engineering&_offices=united-states\<newline>'';
          body = body @ ''\<newline>Best regards,\<newline>Your Job Scraper''
      in body)"

text \<open>
  \<^verbatim>\<open>fmt.Sprintf("From: %s\r\nTo: %s\r\nSubject: %s\r\n\r\n%s", from, to, subject, body.String())\<close>
\<close>

definition composeMessage :: "string \<Rightarrow> string \<Rightarrow> string \<Rightarrow> string \<Rightarrow> string" where
  "composeMessage from to subject body =
     ''From: '' @ from @ CRLF @ ''To: '' @ to @ CRLF @ ''Subject: '' @ subject @ CRLF @ CRLF @ body"

text \<open>The one call of \<^verbatim>\<open>smtp.SendMail\<close> that the function makes (lines 100 to 132).\<close>

definition mailCall :: "environ \<Rightarrow> JobPosting list \<Rightarrow> SendMailCall" where
  "mailCall env jobPostings =
     (let from = Getenv env ''FROM_EMAIL'';
          to = Getenv env ''TO_EMAIL'';
          password = Getenv env ''GOOGLE_APP_PASSWORD'';
          smtpHost = ''smtp.gmail.com'';
          smtpPort = ''587'';
          subject = ''Daily Job Postings'';
          message = composeMessage from to subject (composeBody jobPostings);
          auth = \<lparr>auth_identity = '''', auth_username = from, auth_password = password,
                  auth_host = smtpHost\<rparr>
      in \<lparr>call_addr = smtpHost @ '':'' @ smtpPort, call_auth = auth, call_from = from,
          call_to = [to], call_msg = message\<rparr>)"

text \<open>
  The mail relay answers a submission with an error or with \<^verbatim>\<open>nil\<close> (\<open>None\<close>). The
  function returns its error value and the events of the call.
\<close>

type_synonym relay = "SendMailCall \<Rightarrow> string option"

definition sendDailyJobEmail ::
  "environ \<Rightarrow> relay \<Rightarrow> JobPosting list \<Rightarrow> string option \<times> event list" where
  "sendDailyJobEmail env smtp jobPostings =
     (let call = mailCall env jobPostings;
          err = smtp call
      in (if err \<noteq> None then err else None, [SendMail call]))"

subsection \<open>The program: \<^verbatim>\<open>main\<close>\<close>

text \<open>
  The events of a run, or \<open>None\<close> for a run that does not end. After
  \<^verbatim>\<open>log.Fatalf\<close> nothing else happens. Otherwise the program prints what it found and
  calls \<^verbatim>\<open>sendDailyJobEmail(allJobs)\<close> as a statement: the error value it returns is
  dropped.
\<close>

definition main :: "environ \<Rightarrow> web \<Rightarrow> relay \<Rightarrow> event list option" where
  "main env web smtp =
     (case collect web 1 [] [] of
        None \<Rightarrow> None
      | Some (None, out) \<Rightarrow> Some out
      | Some (Some allJobs, out) \<Rightarrow>
          (let out = out @ [Stdout (''\<newline>Found '' @ Itoa (length allJobs) @
                                     '' midlevel Software Engineer positions:\<newline>'')];
               out = fold (\<lambda>job out. out @ [Stdout (''- '' @ Title job @ '' ('' @ URL job @ '')\<newline>'')])
                       allJobs out;
               (err, sent) = sendDailyJobEmail env smtp allJobs
           in Some (out @ sent)))"

subsection \<open>Vocabulary for the properties\<close>

text \<open>
  The two events at the start of an iteration: the line
  \<^verbatim>\<open>fmt.Printf("Fetching page %d: %s\n", page, url)\<close> and the request.
\<close>

definition announce :: "nat \<Rightarrow> event list" where
  "announce page =
     [Stdout (''Fetching page '' @ Itoa page @ '': '' @ pageURL page @ ''\<newline>''),
      HttpGet (pageURL page)]"

text \<open>The lines that \<^verbatim>\<open>main\<close> prints after the loop (lines 89 to 92).\<close>

definition report :: "JobPosting list \<Rightarrow> event list" where
  "report allJobs =
     Stdout (''\<newline>Found '' @ Itoa (length allJobs) @ '' midlevel Software Engineer positions:\<newline>'') #
     map (\<lambda>job. Stdout (''- '' @ Title job @ '' ('' @ URL job @ '')\<newline>'')) allJobs"

text \<open>
  The job items of a page of the site; a page with status 200 and ten items or more,
  after which the loop goes on; a page on which the loop calls \<^verbatim>\<open>log.Fatalf\<close>: the
  request fails, the status is not 200, or the HTML parser fails.
\<close>

definition pageItems :: "web \<Rightarrow> nat \<Rightarrow> item list" where
  "pageItems web page =
     (case web (pageURL page) of
        Response StatusCode (Document jobItems) \<Rightarrow> jobItems
      | _ \<Rightarrow> [])"

definition full_page :: "web \<Rightarrow> nat \<Rightarrow> bool" where
  "full_page web page =
     (case web (pageURL page) of
        Response StatusCode (Document jobItems) \<Rightarrow> StatusCode = 200 \<and> 10 \<le> length jobItems
      | _ \<Rightarrow> False)"

definition fatal_page :: "web \<Rightarrow> nat \<Rightarrow> bool" where
  "fatal_page web page =
     (case web (pageURL page) of
        GetError err \<Rightarrow> True
      | Response StatusCode body \<Rightarrow>
          (if StatusCode \<noteq> 200 then True
           else case body of ParseError err \<Rightarrow> True | Document jobItems \<Rightarrow> False))"

text \<open>
  The postings of a list of items, said without the loop: the items whose trimmed title
  passes the filter, each with its trimmed title and its link, in the order of the items.
\<close>

definition postingOf :: "item \<Rightarrow> JobPosting" where
  "postingOf s =
     \<lparr>Title = TrimSpace (LinkText s),
      URL = (case LinkHref s of Some href \<Rightarrow> href | None \<Rightarrow> [])\<rparr>"

definition kept :: "item list \<Rightarrow> JobPosting list" where
  "kept jobItems = map postingOf (filter (\<lambda>s. titleFilter (TrimSpace (LinkText s))) jobItems)"

text \<open>
  A title without white space at either end: its first rune and its last rune, as the
  decoders read them, are not white space. A posting as the loop is meant to collect
  them: its title passes the filter and is trimmed.
\<close>

definition trimmed :: "string \<Rightarrow> bool" where
  "trimmed s \<longleftrightarrow>
     \<not> IsSpace (fst (DecodeRuneInString s)) \<and> \<not> IsSpace (fst (DecodeLastRuneInString s))"

definition accepted :: "JobPosting \<Rightarrow> bool" where
  "accepted job \<longleftrightarrow> titleFilter (Title job) \<and> trimmed (Title job)"

text \<open>
  The parts of the mail body: the text written before the postings (one of two), and the
  two texts written after them. A posting's entry is what \<^verbatim>\<open>postingLine\<close> writes,
  without the line feed that ends it.
\<close>

definition greeting :: string where
  "greeting = ''Hello,\<newline>\<newline>Here are today's midlevel Software Engineer job postings:\<newline>\<newline>''"

definition notice :: string where
  "notice = ''Hello,\<newline>\<newline>No current job postings found today.\<newline>''"

definition footer :: string where
  "footer = ''\<newline> You can find more job postings at https://careers.airbnb.com/positions/?_departments=engineering&_offices=united-states\<newline>'' @ ''\<newline>Best regards,\<newline>Your Job Scraper''"

definition postingEntry :: "JobPosting \<Rightarrow> string" where
  "postingEntry job = ''- '' @ Title job @ '': '' @ URL job"

text \<open>The lines of a text: what stands between its line feeds, as \<^verbatim>\<open>strings.Split(s, "\n")\<close>.\<close>

definition LF :: char where
  "LF = CHR 0x0A"

fun splitLines :: "string \<Rightarrow> string list" where
  "splitLines [] = [[]]"
| "splitLines (c # cs) =
     (if c = LF then [] # splitLines cs
      else (case splitLines cs of l # ls \<Rightarrow> (c # l) # ls | [] \<Rightarrow> [[c]]))"

subsection \<open>A reader of mail messages\<close>

text \<open>
  Modelled from the spec: the standard mail-message reader of the round-trip property
  is no part of \<^verbatim>\<open>main.go\<close>, which only writes messages. The reader here follows the
  framing of RFC 5322 in the manner of Go's \<^verbatim>\<open>net/mail.ReadMessage\<close>: a line ends
  with a line feed, and a carriage return before it is dropped; a header field is a line
  \<open>key: value\<close>, continued by the lines after it that begin with a space or a tab; the
  key ends at the first colon, and spaces and tabs around the value are dropped; the
  first empty line ends the header, and what follows it is the body. A first line that
  begins with a space or a tab, a header line without colon, and a value with a byte
  that is no tab, no printable ASCII character and below 0x80 are errors (\<open>None\<close>).
  The reader does not check the characters of a key and keeps its letters as they are.
\<close>

definition CR :: char where
  "CR = CHR 0x0D"

definition blank :: "char \<Rightarrow> bool" where
  "blank c \<longleftrightarrow> c = CHR '' '' \<or> c = CHR 0x09"

definition trim :: "string \<Rightarrow> string" where
  "trim s = rev (dropWhile blank (rev (dropWhile blank s)))"

definition validHeaderValueByte :: "char \<Rightarrow> bool" where
  "validHeaderValueByte c \<longleftrightarrow>
     (let n = (of_char c :: nat) in n = 0x09 \<or> (0x20 \<le> n \<and> n < 0x7F) \<or> 0x80 \<le> n)"

definition readLine :: "string \<Rightarrow> string \<times> string" where
  "readLine s =
     (let line = takeWhile (\<lambda>c. c \<noteq> LF) s;
          rest = drop (length line + 1) s
      in (if line \<noteq> [] \<and> last line = CR then butlast line else line, rest))"

lemma readLine_rest_le: "length (snd (readLine s)) \<le> length s"
  by (simp add: readLine_def Let_def)

lemma readLine_rest_less: "s \<noteq> [] \<Longrightarrow> length (snd (readLine s)) < length s"
  by (simp add: readLine_def Let_def)

function continued :: "string \<Rightarrow> string \<Rightarrow> string \<times> string" where
  "continued kv s =
     (if s \<noteq> [] \<and> blank (hd s) then
        (let (line, rest) = readLine (dropWhile blank s)
         in continued (kv @ '' '' @ trim line) rest)
      else (kv, s))"
  by pat_completeness auto
termination
proof (relation "measure (\<lambda>(kv, s). length s)")
  show "wf (measure (\<lambda>(kv, s). length s))" by simp
next
  fix kv s :: string and x line rest
  assume a: "s \<noteq> [] \<and> blank (hd s)" and x: "x = readLine (dropWhile blank s)"
    and lr: "(line, rest) = x"
  from a have "length (dropWhile blank s) < length s"
    by (cases s) (simp_all add: le_imp_less_Suc length_dropWhile_le)
  moreover from x lr have "length rest \<le> length (dropWhile blank s)"
    using readLine_rest_le [of "dropWhile blank s"] by (metis snd_conv)
  ultimately show "((kv @ '' '' @ trim line, rest), (kv, s)) \<in> measure (\<lambda>(kv, s). length s)"
    by simp
qed

declare continued.simps [simp del]

lemma continued_rest_le: "length (snd (continued kv s)) \<le> length s"
proof (induction kv s rule: continued.induct)
  case (1 kv s)
  show ?case
  proof (cases "s \<noteq> [] \<and> blank (hd s)")
    case False
    then show ?thesis by (subst continued.simps) auto
  next
    case True
    obtain line rest where lr: "readLine (dropWhile blank s) = (line, rest)"
      by (cases "readLine (dropWhile blank s)")
    from "1.IH" [OF True refl lr [symmetric]]
    have "length (snd (continued (kv @ '' '' @ trim line) rest)) \<le> length rest" .
    also from lr have "length rest \<le> length (dropWhile blank s)"
      using readLine_rest_le [of "dropWhile blank s"] by simp
    also have "\<dots> \<le> length s" by (rule length_dropWhile_le)
    finally show ?thesis using True lr by (subst continued.simps) simp
  qed
qed

function readHeader :: "string \<Rightarrow> (string \<times> string) list \<Rightarrow> ((string \<times> string) list \<times> string) option" where
  "readHeader s hdr =
     (if s = [] then (if hdr = [] then None else Some (hdr, []))
      else
        let (line, rest) = readLine s in
        if line = [] then Some (hdr, rest)
        else
          let (kv, rest) = continued (trim line) rest in
          if kv = [] then Some (hdr, rest)
          else if CHR '':'' \<notin> set kv then None
          else
            let k = takeWhile (\<lambda>c. c \<noteq> CHR '':'') kv;
                v = drop (length k + 1) kv
            in if \<not> list_all validHeaderValueByte v then None
               else readHeader rest (hdr @ [(k, dropWhile blank v)]))"
  by pat_completeness auto
termination
proof (relation "measure (\<lambda>(s, hdr). length s)")
  show "wf (measure (\<lambda>(s, hdr). length s))" by simp
next
  fix s :: string and hdr :: "(string \<times> string) list" and x line rest xa kv resta k v
  assume ne: "s \<noteq> []" and x: "x = readLine s" and lr: "(line, rest) = x"
    and xa: "xa = continued (trim line) rest" and kr: "(kv, resta) = xa"
  from x lr have "length rest < length s"
    using readLine_rest_less [OF ne] by (metis snd_conv)
  moreover from xa kr have "length resta \<le> length rest"
    using continued_rest_le [of "trim line" rest] by (metis snd_conv)
  ultimately show "((resta, hdr @ [(k, dropWhile blank v)]), (s, hdr)) \<in> measure (\<lambda>(s, hdr). length s)"
    by simp
qed

declare readHeader.simps [simp del]

record Message =
  Header :: "(string \<times> string) list"
  Body :: string

definition ReadMessage :: "string \<Rightarrow> Message option" where
  "ReadMessage s =
     (if s \<noteq> [] \<and> blank (hd s) then None
      else case readHeader s [] of
             None \<Rightarrow> None
           | Some (hdr, body) \<Rightarrow> Some \<lparr>Header = hdr, Body = body\<rparr>)"

definition Get :: "Message \<Rightarrow> string \<Rightarrow> string" where
  "Get m key = (case map_of (Header m) key of Some v \<Rightarrow> v | None \<Rightarrow> '''')"

text \<open>
  An address that a header field carries as it is: its bytes are tabs, printable ASCII
  characters and bytes of 0x80 or more, so that it holds no carriage return, no line
  feed and no other control character, and it neither begins nor ends with a space or a
  tab.
\<close>

definition clean :: "string \<Rightarrow> bool" where
  "clean s \<longleftrightarrow>
     list_all validHeaderValueByte s \<and> (s = [] \<or> \<not> blank (hd s) \<and> \<not> blank (last s))"

subsection \<open>Example inputs\<close>

text \<open>
  A site of two pages: the first has the given items, the second answers as given, and
  no other address resolves.
\<close>

definition site :: "item list \<Rightarrow> http_result \<Rightarrow> web" where
  "site firstItems second url =
     (if url = pageURL 1 then Response 200 (Document firstItems)
      else if url = pageURL 2 then second
      else GetError ''no such host'')"

definition staff_item :: item where
  "staff_item = \<lparr>LinkText = ''Staff Engineer'', LinkHref = None\<rparr>"

definition engineer_item :: item where
  "engineer_item = \<lparr>LinkText = '' Software Engineer II   '', LinkHref = Some ''/positions/1/''\<rparr>"

definition senior_item :: item where
  "senior_item = \<lparr>LinkText = ''Senior Software Engineer'', LinkHref = None\<rparr>"

definition engineer_posting :: JobPosting where
  "engineer_posting = \<lparr>Title = ''Software Engineer II'', URL = ''/positions/1/''\<rparr>"

text \<open>An item whose link text holds a line feed, and the posting the loop makes of it.\<close>

definition split_item :: item where
  "split_item = \<lparr>LinkText = ''  Software Engineer: a\<newline>- b  '', LinkHref = Some ''c''\<rparr>"

definition split_posting :: JobPosting where
  "split_posting = \<lparr>Title = ''Software Engineer: a\<newline>- b'', URL = ''c''\<rparr>"

text \<open>A relay that rejects every submission, and one that accepts every submission.\<close>

definition rejecting_relay :: relay where
  "rejecting_relay call = Some ''535 5.7.8 Username and Password not accepted''"

definition accepting_relay :: relay where
  "accepting_relay call = None"

text \<open>
  An environment with plain addresses, and one whose sender address holds two line breaks.
\<close>

definition clean_env :: environ where
  "clean_env = [''FROM_EMAIL'' \<mapsto> ''me@example.com'', ''TO_EMAIL'' \<mapsto> ''you@example.com'']"

definition injected_env :: environ where
  "injected_env =
     [''FROM_EMAIL'' \<mapsto> ''x@example.com'' @ CRLF @ CRLF @ ''y'',
      ''TO_EMAIL'' \<mapsto> ''you@example.com'']"

section \<open>Properties\<close>

subsection \<open>Substring tests\<close>

lemma HasPrefix_prefix: "HasPrefix s p \<longleftrightarrow> prefix p s"
  by (induction s p rule: HasPrefix.induct) auto

lemma Contains_sublist: "Contains s substr \<longleftrightarrow> sublist substr s"
proof (induction s)
  case Nil
  show ?case by (simp add: HasPrefix_prefix)
next
  case (Cons c cs)
  then show ?case by (simp add: HasPrefix_prefix sublist_Cons_right)
qed

lemma Contains_append: "Contains s substr \<longleftrightarrow> (\<exists>ps ss. s = ps @ substr @ ss)"
  by (simp add: Contains_sublist sublist_def)

subsection \<open>Decoding runes\<close>

lemma Decode_ascii: "s \<noteq> [] \<Longrightarrow> byte s 0 < 0x80 \<Longrightarrow> DecodeRuneInString s = (byte s 0, 1)"
  by (simp add: DecodeRuneInString_def Let_def first_AS [THEN iffD2] Suc_le_eq)

text \<open>A rune other than RuneError is decoded from a leading byte that starts a rune.\<close>
lemma Decode_start:
  assumes "DecodeRuneInString s = (r, n)" and "r \<noteq> RuneError"
  shows "s \<noteq> [] \<and> RuneStart (byte s 0)"
proof -
  from assms have ne: "s \<noteq> []" by (auto simp: Decode_Nil)
  show ?thesis
  proof (cases "first (byte s 0)")
    case AS
    then show ?thesis using ne by (simp add: first_AS RuneStart_def)
  next
    case XX
    with assms ne show ?thesis by (simp add: DecodeRuneInString_def Let_def Suc_le_eq)
  next
    case (Multi sz lo hi)
    from first_Multi [OF this] show ?thesis using ne by (simp add: RuneStart_def)
  qed
qed

text \<open>A decoding of two bytes or more reads exactly these bytes.\<close>
lemma Decode_multi_append:
  assumes "DecodeRuneInString s = (r, n)" and "2 \<le> n"
  shows "DecodeRuneInString (s @ ys) = (r, n) \<and> 0xC2 \<le> byte s 0 \<and> n \<le> length s"
proof -
  from assms have ne: "s \<noteq> []" by (auto simp: Decode_Nil)
  show ?thesis
  proof (cases "first (byte s 0)")
    case AS
    with assms ne show ?thesis by (simp add: DecodeRuneInString_def Let_def Suc_le_eq)
  next
    case XX
    with assms ne show ?thesis by (simp add: DecodeRuneInString_def Let_def Suc_le_eq)
  next
    case (Multi sz lo hi)
    note fm = first_Multi [OF this]
    have b0: "byte (s @ ys) 0 = byte s 0" using ne by (simp add: byte_def nth_append)
    have bk: "\<And>k. k < length s \<Longrightarrow> byte (s @ ys) k = byte s k" by (simp add: byte_def nth_append)
    from assms Multi ne fm show ?thesis
      by (auto simp: DecodeRuneInString_def Let_def Suc_le_eq b0 bk split: if_splits)
  qed
qed

text \<open>Cutting a string short leaves its first rune as it is, or makes it RuneError.\<close>
lemma Decode_take:
  "DecodeRuneInString (take j s) = DecodeRuneInString s \<or>
   fst (DecodeRuneInString (take j s)) = RuneError"
proof (cases "take j s = []")
  case True
  then have "DecodeRuneInString (take j s) = (RuneError, 0)" by (simp only: Decode_Nil)
  then show ?thesis by simp
next
  case False
  then have ne: "s \<noteq> []" and j: "0 < j" by auto
  have bk: "\<And>k. k < j \<Longrightarrow> byte (take j s) k = byte s k" by (simp add: byte_def)
  have b0: "byte (take j s) 0 = byte s 0" using j by (simp add: bk)
  show ?thesis
  proof (cases "first (byte s 0)")
    case AS
    with False ne b0 show ?thesis by (simp add: DecodeRuneInString_def Let_def Suc_le_eq)
  next
    case XX
    with False ne b0 show ?thesis by (simp add: DecodeRuneInString_def Let_def Suc_le_eq)
  next
    case (Multi sz lo hi)
    note fm = first_Multi [OF this]
    show ?thesis
    proof (cases "min (length s) j < sz")
      case True
      with False ne b0 Multi show ?thesis
        by (simp add: DecodeRuneInString_def Let_def Suc_le_eq)
    next
      case nt: False
      then have "sz \<le> j" "sz \<le> length s" by simp_all
      with fm have "1 < j" "(sz \<le> 2 \<or> 2 < j)" "(sz \<le> 3 \<or> 3 < j)" by auto
      with nt False ne b0 Multi fm show ?thesis
        by (auto simp: DecodeRuneInString_def Let_def Suc_le_eq bk)
    qed
  qed
qed

text \<open>A byte of 0x80 or more that no continuation byte follows is decoded alone.\<close>
lemma Decode_alone:
  assumes "(0x80::nat) \<le> of_char b" and "rest = [] \<or> RuneStart (byte rest 0)"
  shows "snd (DecodeRuneInString (b # rest)) = 1"
proof (cases "first (of_char b)")
  case AS
  with assms(1) show ?thesis by (simp add: first_AS)
next
  case XX
  then show ?thesis by (simp add: DecodeRuneInString_def Let_def byte_def)
next
  case (Multi sz lo hi)
  note fm = first_Multi [OF this]
  from assms(2) show ?thesis
  proof
    assume "rest = []"
    with Multi fm show ?thesis by (simp add: DecodeRuneInString_def Let_def byte_def)
  next
    assume "RuneStart (byte rest 0)"
    then have "byte (b # rest) 1 < lo \<or> hi < byte (b # rest) 1"
      using fm by (auto simp: RuneStart_def byte_def)
    with Multi show ?thesis by (simp add: DecodeRuneInString_def Let_def byte_def)
  qed
qed

subsection \<open>Trimming\<close>

lemma indexFunc_from_found:
  "indexFunc_from s f truth i = k \<Longrightarrow> k \<noteq> - 1 \<Longrightarrow>
   int i \<le> k \<and> k < int (length s) \<and> f (fst (DecodeRuneInString (drop (nat k) s))) = truth"
proof (induction s f truth i rule: indexFunc_from.induct)
  case (1 s f truth i)
  from "1.prems" have lt: "i < length s"
    by (subst (asm) indexFunc_from.simps) (auto split: if_splits)
  obtain r sz where dec: "DecodeRuneInString (drop i s) = (r, sz)"
    by (cases "DecodeRuneInString (drop i s)")
  show ?case
  proof (cases "f r = truth")
    case True
    with lt dec "1.prems" have "k = int i"
      by (subst (asm) indexFunc_from.simps) simp
    with lt dec True show ?thesis by simp
  next
    case False
    with lt dec "1.prems" have "indexFunc_from s f truth (i + sz) = k"
      by (subst (asm) indexFunc_from.simps) simp
    from "1.IH" [OF lt refl dec [symmetric] False this "1.prems"(2)] show ?thesis by simp
  qed
qed

lemma TrimLeftFunc_first:
  assumes "\<not> f RuneError"
  shows "\<not> f (fst (DecodeRuneInString (TrimLeftFunc s f)))"
proof (cases "indexFunc s f False = - 1")
  case True
  then show ?thesis using assms by (simp add: TrimLeftFunc_def Decode_Nil)
next
  case False
  from indexFunc_from_found [OF refl, of s f False 0] False
  show ?thesis by (simp add: TrimLeftFunc_def indexFunc_def)
qed

lemma TrimLeftFunc_suffix: "suffix (TrimLeftFunc s f) s"
  by (simp add: TrimLeftFunc_def Let_def suffix_drop)

lemma drop_last_byte:
  assumes "s \<noteq> []"
  shows "drop (length s - 1) (s @ rest) = s ! (length s - 1) # rest"
proof -
  have "drop (length s - 1) s = [s ! (length s - 1)]"
    using assms by (metis append_butlast_last_id append_eq_conv_conj last_conv_nth length_butlast)
  then show ?thesis by simp
qed

lemma width_at_last:
  assumes ne: "s \<noteq> []" and dl: "DecodeLastRuneInString s = (r, n)"
    and rest: "rest = [] \<or> RuneStart (byte rest 0)"
  shows "width_at (s @ rest) (length s - n) = n"
proof -
  from DecodeLast_size [OF ne] dl have n: "1 \<le> n" "n \<le> length s" by simp_all
  have b: "byte (s @ rest) (length s - n) = byte s (length s - n)"
    using n ne by (simp add: byte_def nth_append)
  have one: "width_at (s @ rest) (length s - 1) = 1"
  proof (cases "RuneSelf \<le> byte s (length s - 1)")
    case True
    then have "(0x80::nat) \<le> of_char (s ! (length s - 1))" by (simp add: RuneSelf_def byte_def)
    from Decode_alone [OF this rest]
    have "snd (DecodeRuneInString (drop (length s - 1) (s @ rest))) = 1"
      by (simp only: drop_last_byte [OF ne])
    then show ?thesis by (simp add: width_at_def)
  next
    case False
    then show ?thesis using ne by (simp add: width_at_def byte_def nth_append)
  qed
  show ?thesis
  proof (cases "n = 1")
    case True
    with one show ?thesis by simp
  next
    case False
    with n have n2: "2 \<le> n" by simp
    with DecodeLast_cases [OF ne dl]
    have "DecodeRuneInString (drop (length s - n) s) = (r, n)" by auto
    from Decode_multi_append [OF this n2, of rest]
    have "DecodeRuneInString (drop (length s - n) s @ rest) = (r, n)"
      and "0xC2 \<le> byte (drop (length s - n) s) 0" by simp_all
    moreover have "byte (drop (length s - n) s) 0 = byte s (length s - n)"
      using n by (simp add: byte_def)
    moreover have "drop (length s - n) (s @ rest) = drop (length s - n) s @ rest"
      by simp
    ultimately show ?thesis using b by (simp add: width_at_def RuneSelf_def)
  qed
qed

text \<open>The bytes of a rune other than RuneError, read from the end, begin with a rune start.\<close>
lemma DecodeLast_start:
  assumes ne: "s \<noteq> []" and dl: "DecodeLastRuneInString s = (r, n)" and r: "r \<noteq> RuneError"
  shows "RuneStart (byte (drop (length s - n) s @ rest) 0)"
proof -
  from DecodeLast_size [OF ne] dl have n: "1 \<le> n" "n \<le> length s" by simp_all
  then have b: "byte (drop (length s - n) s @ rest) 0 = byte s (length s - n)"
    by (simp add: byte_def nth_append)
  from DecodeLast_cases [OF ne dl] r
  consider "n = 1 \<and> r = byte s (length s - 1) \<and> r < 0x80"
    | "DecodeRuneInString (drop (length s - n) s) = (r, n)" by blast
  then show ?thesis
  proof cases
    case 1
    then show ?thesis unfolding b by (simp add: RuneStart_def)
  next
    case 2
    from Decode_start [OF this r] have "RuneStart (byte (drop (length s - n) s) 0)" by simp
    moreover have "byte (drop (length s - n) s) 0 = byte s (length s - n)"
      using n by (simp add: byte_def)
    ultimately show ?thesis unfolding b by simp
  qed
qed

lemma lastIndexFunc_found:
  "lastIndexFunc s f truth = i \<Longrightarrow> f RuneError = truth \<Longrightarrow>
   rest = [] \<or> RuneStart (byte rest 0) \<Longrightarrow> i \<noteq> - 1 \<Longrightarrow>
   0 \<le> i \<and> nat i + width_at (s @ rest) (nat i) \<le> length s \<and>
   f (fst (DecodeLastRuneInString (take (nat i + width_at (s @ rest) (nat i)) s))) = truth"
proof (induction s f truth arbitrary: rest rule: lastIndexFunc.induct)
  case (1 s f truth)
  from "1.prems"(1,4) have ne: "s \<noteq> []"
    by (subst (asm) lastIndexFunc.simps) (auto split: if_splits)
  obtain r n where dl: "DecodeLastRuneInString s = (r, n)"
    by (cases "DecodeLastRuneInString s")
  from DecodeLast_size [OF ne] dl have n: "1 \<le> n" "n \<le> length s" by simp_all
  show ?case
  proof (cases "f r = truth")
    case True
    with ne dl "1.prems"(1) have i: "i = int (length s - n)"
      by (subst (asm) lastIndexFunc.simps) simp
    then have ni: "nat i = length s - n" "0 \<le> i" by simp_all
    from width_at_last [OF ne dl "1.prems"(3)] n
    have "nat i + width_at (s @ rest) (nat i) = length s" unfolding ni by simp
    with True dl ni(2) show ?thesis by simp
  next
    case False
    with ne dl "1.prems"(1) have rec: "lastIndexFunc (take (length s - n) s) f truth = i"
      by (subst (asm) lastIndexFunc.simps) simp
    from False "1.prems"(2) have "r \<noteq> RuneError" by auto
    from DecodeLast_start [OF ne dl this, of rest]
    have rest': "drop (length s - n) s @ rest = [] \<or>
        RuneStart (byte (drop (length s - n) s @ rest) 0)" by simp
    have app: "take (length s - n) s @ drop (length s - n) s @ rest = s @ rest" by simp
    from ne have lt: "0 < length s" by simp
    define w where "w = nat i + width_at (s @ rest) (nat i)"
    note raw = "1.IH" [OF lt refl dl [symmetric] refl False rec "1.prems"(2) rest' "1.prems"(4),
        unfolded app, folded w_def]
    from raw have w: "w \<le> length s - n" by simp
    then have "take w (take (length s - n) s) = take w s" by (simp add: min_def)
    with raw w n have "0 \<le> i \<and> w \<le> length s \<and> f (fst (DecodeLastRuneInString (take w s))) = truth"
      by simp
    then show ?thesis unfolding w_def .
  qed
qed

lemma lastIndexFunc_range: "lastIndexFunc s f truth = - 1 \<or> 0 \<le> lastIndexFunc s f truth"
proof (induction s f truth rule: lastIndexFunc.induct)
  case (1 s f truth)
  show ?case
  proof (cases "s = []")
    case True
    then show ?thesis by (subst lastIndexFunc.simps) simp
  next
    case ne: False
    obtain r n where dl: "DecodeLastRuneInString s = (r, n)"
      by (cases "DecodeLastRuneInString s")
    show ?thesis
    proof (cases "f r = truth")
      case True
      with ne dl have "lastIndexFunc s f truth = int (length s - n)"
        by (subst lastIndexFunc.simps) simp
      then show ?thesis by simp
    next
      case False
      with ne dl have "lastIndexFunc s f truth = lastIndexFunc (take (length s - n) s) f truth"
        by (subst lastIndexFunc.simps) simp
      moreover from ne have "0 < length s" by simp
      note "1.IH" [OF this refl dl [symmetric] refl False]
      ultimately show ?thesis by simp
    qed
  qed
qed

lemma TrimRightFunc_take:
  "TrimRightFunc s f =
     (if lastIndexFunc s f False = - 1 then []
      else take (nat (lastIndexFunc s f False) + width_at s (nat (lastIndexFunc s f False))) s)"
proof (cases "lastIndexFunc s f False = - 1")
  case True
  then show ?thesis by (simp add: TrimRightFunc_def)
next
  case False
  with lastIndexFunc_range [of s f False] have "0 \<le> lastIndexFunc s f False" by simp
  with False show ?thesis
    by (simp add: TrimRightFunc_def width_at_def Let_def nat_add_distrib)
qed

lemma TrimRightFunc_last:
  assumes "\<not> f RuneError"
  shows "\<not> f (fst (DecodeLastRuneInString (TrimRightFunc s f)))"
proof (cases "lastIndexFunc s f False = - 1")
  case True
  with assms show ?thesis
    by (simp add: TrimRightFunc_take DecodeLastRuneInString_def)
next
  case False
  from assms have "f RuneError = False" by simp
  from lastIndexFunc_found [OF refl this _ False, of "[]"] False
  show ?thesis by (simp add: TrimRightFunc_take)
qed

lemma TrimRightFunc_prefix: "prefix (TrimRightFunc s f) s"
  by (simp add: TrimRightFunc_take take_is_prefix)

lemma TrimRightFunc_first:
  assumes "\<not> f RuneError" and "\<not> f (fst (DecodeRuneInString s))"
  shows "\<not> f (fst (DecodeRuneInString (TrimRightFunc s f)))"
proof -
  have "\<exists>j. TrimRightFunc s f = take j s"
  proof (cases "lastIndexFunc s f False = - 1")
    case True
    then have "TrimRightFunc s f = take 0 s" by (simp add: TrimRightFunc_take)
    then show ?thesis ..
  next
    case False
    then have "TrimRightFunc s f =
        take (nat (lastIndexFunc s f False) + width_at s (nat (lastIndexFunc s f False))) s"
      by (simp add: TrimRightFunc_take)
    then show ?thesis ..
  qed
  then obtain j where j: "TrimRightFunc s f = take j s" ..
  from Decode_take [of j s] show ?thesis
  proof
    assume "DecodeRuneInString (take j s) = DecodeRuneInString s"
    with assms(2) show ?thesis unfolding j by simp
  next
    assume "fst (DecodeRuneInString (take j s)) = RuneError"
    with assms(1) show ?thesis unfolding j by simp
  qed
qed

lemma IsSpace_RuneError: "\<not> IsSpace RuneError"
  by (simp add: IsSpace_def RuneError_def)

lemma TrimSpace_first: "\<not> IsSpace (fst (DecodeRuneInString (TrimSpace s)))"
  unfolding TrimSpace_def TrimFunc_def
  by (rule TrimRightFunc_first [of IsSpace, OF IsSpace_RuneError
        TrimLeftFunc_first [of IsSpace, OF IsSpace_RuneError]])

lemma TrimSpace_last: "\<not> IsSpace (fst (DecodeLastRuneInString (TrimSpace s)))"
  unfolding TrimSpace_def TrimFunc_def
  by (rule TrimRightFunc_last [of IsSpace, OF IsSpace_RuneError])

lemma TrimSpace_sublist: "sublist (TrimSpace s) s"
proof -
  define t where "t = TrimLeftFunc s IsSpace"
  from TrimLeftFunc_suffix [of s IsSpace] obtain ps where ps: "s = ps @ t"
    unfolding t_def suffix_def by blast
  from TrimRightFunc_prefix [of t IsSpace] obtain ss where ss: "t = TrimRightFunc t IsSpace @ ss"
    unfolding prefix_def by blast
  have "s = ps @ TrimSpace s @ ss"
    unfolding TrimSpace_def TrimFunc_def t_def [symmetric] using ps ss by simp
  then show ?thesis unfolding sublist_def by blast
qed

subsection \<open>Trimming ASCII strings\<close>

lemma Decode_Cons_ascii:
  "(of_char c :: nat) < 0x80 \<Longrightarrow> DecodeRuneInString (c # cs) = (of_char c, 1)"
  using Decode_ascii [of "c # cs"] by (simp add: byte_def)

lemma DecodeLast_ascii:
  assumes "s \<noteq> []" and "(of_char (last s) :: nat) < 0x80"
  shows "DecodeLastRuneInString s = (of_char (last s), 1)"
proof -
  from assms(1) have "byte s (length s - 1) = of_char (last s)"
    by (simp add: byte_def last_conv_nth)
  with assms DecodeLast_cases [OF assms(1), of "fst (DecodeLastRuneInString s)" "snd (DecodeLastRuneInString s)"]
  show ?thesis by (cases "DecodeLastRuneInString s") auto
qed

lemma indexFunc_from_ascii:
  assumes "list_all (\<lambda>c. (of_char c :: nat) < 0x80) s"
  shows "i \<le> length s \<Longrightarrow>
    (if indexFunc_from s f False i = - 1 then []
     else drop (nat (indexFunc_from s f False i)) s) = dropWhile (\<lambda>c. f (of_char c)) (drop i s)"
proof (induction "length s - i" arbitrary: i)
  case 0
  then show ?case by (subst indexFunc_from.simps, subst (2) indexFunc_from.simps) simp
next
  case (Suc k)
  then have lt: "i < length s" by simp
  then have dr: "drop i s = s ! i # drop (Suc i) s" by (simp add: Cons_nth_drop_Suc)
  from assms lt have "(of_char (s ! i) :: nat) < 0x80" by (simp add: list_all_length)
  from Decode_Cons_ascii [OF this] have dec: "DecodeRuneInString (drop i s) = (of_char (s ! i), 1)"
    unfolding dr .
  show ?case
  proof (cases "f (of_char (s ! i))")
    case False
    with lt dec have "indexFunc_from s f False i = int i"
      by (subst indexFunc_from.simps) simp
    with False dr show ?thesis by simp
  next
    case True
    with lt dec have "indexFunc_from s f False i = indexFunc_from s f False (Suc i)"
      by (subst indexFunc_from.simps) simp
    moreover from Suc.hyps(2) lt have "k = length s - Suc i" "Suc i \<le> length s" by simp_all
    note Suc.hyps(1) [OF this]
    ultimately show ?thesis using True dr by (auto split: if_splits)
  qed
qed

lemma TrimLeftFunc_ascii:
  assumes "list_all (\<lambda>c. (of_char c :: nat) < 0x80) s"
  shows "TrimLeftFunc s f = dropWhile (\<lambda>c. f (of_char c)) s"
  using indexFunc_from_ascii [OF assms, of 0 f]
  by (simp add: TrimLeftFunc_def indexFunc_def Let_def)

lemma lastIndexFunc_ascii:
  "list_all (\<lambda>c. (of_char c :: nat) < 0x80) s \<Longrightarrow>
    (if lastIndexFunc s f False = - 1 then []
     else take (nat (lastIndexFunc s f False) + 1) s) = rev (dropWhile (\<lambda>c. f (of_char c)) (rev s)) \<and>
    (lastIndexFunc s f False = - 1 \<or>
     0 \<le> lastIndexFunc s f False \<and> nat (lastIndexFunc s f False) < length s)"
proof (induction s rule: rev_induct)
  case Nil
  show ?case by (subst lastIndexFunc.simps, subst (2) lastIndexFunc.simps) simp
next
  case (snoc c s)
  then have c: "(of_char c :: nat) < 0x80" and asc: "list_all (\<lambda>c. (of_char c :: nat) < 0x80) s"
    by simp_all
  from DecodeLast_ascii [of "s @ [c]"] c
  have dec: "DecodeLastRuneInString (s @ [c]) = (of_char c, 1)" by simp
  show ?case
  proof (cases "f (of_char c)")
    case False
    with dec have "lastIndexFunc (s @ [c]) f False = int (length s)"
      by (subst lastIndexFunc.simps) simp
    with False show ?thesis by simp
  next
    case True
    with dec have eq: "lastIndexFunc (s @ [c]) f False = lastIndexFunc s f False"
      by (subst lastIndexFunc.simps) simp
    from True have dw: "rev (dropWhile (\<lambda>c. f (of_char c)) (rev (s @ [c]))) =
        rev (dropWhile (\<lambda>c. f (of_char c)) (rev s))"
      by simp
    from snoc.IH [OF asc] show ?thesis unfolding eq dw by (auto simp: less_Suc_eq)
  qed
qed

lemma TrimRightFunc_ascii:
  assumes "list_all (\<lambda>c. (of_char c :: nat) < 0x80) s"
  shows "TrimRightFunc s f = rev (dropWhile (\<lambda>c. f (of_char c)) (rev s))"
proof (cases "lastIndexFunc s f False = - 1")
  case True
  with lastIndexFunc_ascii [OF assms, of f] show ?thesis by (simp add: TrimRightFunc_def)
next
  case False
  with lastIndexFunc_ascii [OF assms, of f]
  have k: "0 \<le> lastIndexFunc s f False" "nat (lastIndexFunc s f False) < length s"
    and tk: "take (nat (lastIndexFunc s f False) + 1) s = rev (dropWhile (\<lambda>c. f (of_char c)) (rev s))"
    by simp_all
  from assms k(2) have "byte s (nat (lastIndexFunc s f False)) < 0x80"
    by (simp add: list_all_length byte_def)
  with k tk show ?thesis by (simp add: TrimRightFunc_def RuneSelf_def Let_def nat_add_distrib)
qed

text \<open>
  On a string of ASCII characters, \<open>TrimSpace\<close> drops the leading and the trailing
  characters that are tab, line feed, vertical tab, form feed, carriage return or space.
\<close>
lemma TrimSpace_ascii:
  assumes "list_all (\<lambda>c. (of_char c :: nat) < 0x80) s"
  shows "TrimSpace s =
    rev (dropWhile (\<lambda>c. IsSpace (of_char c)) (rev (dropWhile (\<lambda>c. IsSpace (of_char c)) s)))"
proof -
  have "set (dropWhile (\<lambda>c. IsSpace (of_char c)) s) \<subseteq> set s"
    by (auto dest: set_dropWhileD)
  with assms have "list_all (\<lambda>c. (of_char c :: nat) < 0x80) (dropWhile (\<lambda>c. IsSpace (of_char c)) s)"
    by (auto simp: list_all_iff)
  from TrimRightFunc_ascii [OF this] show ?thesis
    by (simp add: TrimSpace_def TrimFunc_def TrimLeftFunc_ascii [OF assms])
qed

subsection \<open>The pagination loop\<close>

lemma collect_GetError:
  "web (pageURL page) = GetError err \<Longrightarrow>
   collect web page allJobs out =
     Some (None, out @ announce page @
       [Fatalf (''Error fetching page '' @ Itoa page @ '': '' @ err)])"
  by (subst collect.simps) (simp add: announce_def Let_def)

lemma collect_status:
  "web (pageURL page) = Response StatusCode body \<Longrightarrow> StatusCode \<noteq> 200 \<Longrightarrow>
   collect web page allJobs out =
     Some (None, out @ announce page @
       [Fatalf (''Non-200 HTTP status on page '' @ Itoa page @ '': '' @ Itoa StatusCode)])"
  by (subst collect.simps) (simp add: announce_def Let_def)

lemma collect_ParseError:
  "web (pageURL page) = Response 200 (ParseError err) \<Longrightarrow>
   collect web page allJobs out =
     Some (None, out @ announce page @
       [Fatalf (''Error parsing HTML on page '' @ Itoa page @ '': '' @ err)])"
  by (subst collect.simps) (simp add: announce_def Let_def)

lemma collect_empty:
  "web (pageURL page) = Response 200 (Document []) \<Longrightarrow>
   collect web page allJobs out =
     Some (Some allJobs, out @ announce page @
       [Stdout ''No job listings found on this page; ending pagination.\<newline>''])"
  by (subst collect.simps) (simp add: announce_def Let_def)

lemma collect_short:
  "web (pageURL page) = Response 200 (Document jobItems) \<Longrightarrow>
   0 < length jobItems \<Longrightarrow> length jobItems < 10 \<Longrightarrow>
   collect web page allJobs out =
     Some (Some (Each jobItems allJobs), out @ announce page @
       [Stdout ''Fewer than 10 job items found; likely the last page.\<newline>''])"
  by (subst collect.simps) (simp add: announce_def Let_def)

lemma collect_full:
  "web (pageURL page) = Response 200 (Document jobItems) \<Longrightarrow> 10 \<le> length jobItems \<Longrightarrow>
   collect web page allJobs out =
     collect web (page + 1) (Each jobItems allJobs) (out @ announce page)"
  by (subst collect.simps) (auto simp add: announce_def Let_def)

lemma full_pageD:
  "full_page web page \<Longrightarrow>
   web (pageURL page) = Response 200 (Document (pageItems web page)) \<and>
   10 \<le> length (pageItems web page)"
  by (auto simp: full_page_def pageItems_def split: http_result.splits document.splits)

lemma collect_skip:
  "list_all (full_page web) [page..<page + k] \<Longrightarrow>
   collect web page allJobs out =
     collect web (page + k) (fold (\<lambda>q. Each (pageItems web q)) [page..<page + k] allJobs)
       (out @ concat (map announce [page..<page + k]))"
proof (induction k arbitrary: page allJobs out)
  case 0
  show ?case by simp
next
  case (Suc k)
  have up: "[page..<page + Suc k] = page # [Suc page..<Suc page + k]"
    by (simp add: upt_conv_Cons del: upt_Suc)
  from Suc.prems have fp: "full_page web page"
    and rest: "list_all (full_page web) [Suc page..<Suc page + k]"
    unfolding up by simp_all
  from full_pageD [OF fp]
  have "collect web page allJobs out =
      collect web (Suc page) (Each (pageItems web page) allJobs) (out @ announce page)"
    using collect_full [of web page "pageItems web page" allJobs out] by simp
  also note Suc.IH [OF rest]
  finally show ?case unfolding up by simp
qed

lemma fetches_append: "fetches (xs @ ys) = fetches xs @ fetches ys"
  by (induction xs rule: fetches.induct) simp_all

lemma mails_append: "mails (xs @ ys) = mails xs @ mails ys"
  by (induction xs rule: mails.induct) simp_all

lemma fatals_append: "fatals (xs @ ys) = fatals xs @ fatals ys"
  by (induction xs rule: fatals.induct) simp_all

lemma announce_events:
  "fetches (announce page) = [pageURL page]" "mails (announce page) = []"
  "fatals (announce page) = []"
  by (simp_all add: announce_def)

lemma announce_all_events:
  "fetches (concat (map announce ps)) = map pageURL ps"
  "mails (concat (map announce ps)) = []"
  "fatals (concat (map announce ps)) = []"
  by (induction ps) (simp_all add: fetches_append mails_append fatals_append announce_events)

lemma visit_kept: "visit s allJobs = allJobs @ kept [s]"
  by (simp add: visit_def kept_def postingOf_def Let_def)

lemma Each_kept: "Each jobItems allJobs = allJobs @ kept jobItems"
proof -
  have "fold visit jobItems allJobs = allJobs @ kept jobItems"
  proof (induction jobItems arbitrary: allJobs)
    case Nil
    show ?case by (simp add: kept_def)
  next
    case (Cons s jobItems)
    have "kept (s # jobItems) = kept [s] @ kept jobItems" by (simp add: kept_def)
    with Cons show ?case by (simp add: visit_kept)
  qed
  then show ?thesis by (simp add: Each_def)
qed

lemma fold_Each_kept:
  "fold (\<lambda>q. Each (pageItems web q)) qs allJobs =
     allJobs @ concat (map (\<lambda>q. kept (pageItems web q)) qs)"
  by (induction qs arbitrary: allJobs) (simp_all add: Each_kept)

text \<open>The loop from its start to the head of the iteration for page \<open>p\<close>.\<close>
lemma collect_upto:
  assumes "list_all (full_page web) [1..<p]" and "1 \<le> p"
  shows "collect web 1 [] [] =
     collect web p (concat (map (\<lambda>q. kept (pageItems web q)) [1..<p]))
       (concat (map announce [1..<p]))"
proof -
  from assms(2) have p: "1 + (p - 1) = p" by simp
  from collect_skip [of web 1 "p - 1" "[]" "[]"] assms(1)
  show ?thesis unfolding p by (simp add: fold_Each_kept)
qed

lemma upt_snoc: "1 \<le> p \<Longrightarrow> [1..<Suc p] = [1..<p] @ [p]"
  by simp

lemma collect_short_page:
  assumes "list_all (full_page web) [1..<p]" and "1 \<le> p"
    and "web (pageURL p) = Response 200 (Document jobItems)"
    and "0 < length jobItems" and "length jobItems < 10"
  shows "collect web 1 [] [] =
           Some (Some (concat (map (\<lambda>q. kept (pageItems web q)) [1..<p]) @ kept jobItems),
                 concat (map announce [1..<Suc p]) @
                 [Stdout ''Fewer than 10 job items found; likely the last page.\<newline>''])"
  unfolding collect_upto [OF assms(1,2)]
    collect_short [where web = web and page = p, OF assms(3,4,5)] upt_snoc [OF assms(2)]
  by (simp add: Each_kept)

lemma collect_empty_page:
  assumes "list_all (full_page web) [1..<p]" and "1 \<le> p"
    and "web (pageURL p) = Response 200 (Document [])"
  shows "collect web 1 [] [] =
           Some (Some (concat (map (\<lambda>q. kept (pageItems web q)) [1..<p])),
                 concat (map announce [1..<Suc p]) @
                 [Stdout ''No job listings found on this page; ending pagination.\<newline>''])"
  unfolding collect_upto [OF assms(1,2)]
    collect_empty [where web = web and page = p, OF assms(3)] upt_snoc [OF assms(2)]
  by simp

lemma collect_fatal:
  assumes "fatal_page web page"
  shows "\<exists>m. collect web page allJobs out = Some (None, out @ announce page @ [Fatalf m])"
proof (cases "web (pageURL page)")
  case (GetError err)
  from collect_GetError [where web = web and page = page, OF this] show ?thesis by blast
next
  case (Response StatusCode body)
  show ?thesis
  proof (cases "StatusCode = 200")
    case False
    from collect_status [where web = web and page = page, OF Response False] show ?thesis by blast
  next
    case True
    with assms Response obtain err where "body = ParseError err"
      by (auto simp: fatal_page_def split: document.splits)
    with Response True have "web (pageURL page) = Response 200 (ParseError err)" by simp
    from collect_ParseError [where web = web and page = page, OF this] show ?thesis by blast
  qed
qed

lemma fold_snoc_map: "fold (\<lambda>x acc. acc @ [g x]) xs acc = acc @ map g xs"
  by (induction xs arbitrary: acc) simp_all

lemma main_fatal: "collect web 1 [] [] = Some (None, out) \<Longrightarrow> main env web smtp = Some out"
  by (simp add: main_def)

lemma main_sends:
  "collect web 1 [] [] = Some (Some allJobs, out) \<Longrightarrow>
   main env web smtp = Some (out @ report allJobs @ [SendMail (mailCall env allJobs)])"
  by (simp add: main_def report_def sendDailyJobEmail_def Let_def fold_snoc_map)

lemma report_events: "fetches (report allJobs) = []" "mails (report allJobs) = []"
  "fatals (report allJobs) = []"
  by (induction allJobs) (simp_all add: report_def)

subsection \<open>Evaluating the example inputs\<close>

lemma pageURL_2_1: "pageURL 2 \<noteq> pageURL 1"
  by (simp add: pageURL_def Itoa.simps)

lemma site_pages:
  "site firstItems second (pageURL 1) = Response 200 (Document firstItems)"
  "site firstItems second (pageURL 2) = second"
  by (simp_all add: site_def pageURL_2_1 del: One_nat_def)

lemma upt_1_2: "[1..<2] = [1::nat]"
  by (simp add: upt_rec)

lemma site_first_full:
  "10 \<le> length firstItems \<Longrightarrow> list_all (full_page (site firstItems second)) [1..<2]"
  by (simp add: upt_1_2 full_page_def site_pages del: One_nat_def)

lemma site_pageItems: "pageItems (site firstItems second) 1 = firstItems"
  by (simp add: pageItems_def site_pages del: One_nat_def)

lemma kept_examples:
  "kept [staff_item] = []" "kept [engineer_item] = [engineer_posting]" "kept [senior_item] = []"
  by (simp_all add: kept_def postingOf_def staff_item_def engineer_item_def senior_item_def
      engineer_posting_def TrimSpace_ascii IsSpace_def titleFilter_def)

lemma kept_append: "kept (xs @ ys) = kept xs @ kept ys"
  by (simp add: kept_def)

lemma kept_replicate: "kept (replicate n s) = concat (replicate n (kept [s]))"
  by (induction n) (simp_all add: kept_def)

subsection \<open>C1: the title filter\<close>

text \<open>
  C1. For every title, the filter keeps the posting exactly when the title has
  \<open>Software Engineer\<close> as a contiguous, case-sensitive substring (\<^const>\<open>sublist\<close>:
  the title is \<open>ps @ substr @ ss\<close> for some \<open>ps\<close> and \<open>ss\<close>) and has none of
  \<open>Senior\<close>, \<open>Staff\<close>, \<open>Sr.\<close>, \<open>Principal\<close>, \<open>Android\<close>, \<open>iOS\<close> as a substring.
  In particular a title without \<open>Software Engineer\<close> is rejected whatever else it
  contains.
\<close>

theorem titleFilter_iff:
  "(titleFilter title \<longleftrightarrow>
      sublist ''Software Engineer'' title \<and>
      \<not> sublist ''Senior'' title \<and>
      \<not> sublist ''Staff'' title \<and>
      \<not> sublist ''Sr.'' title \<and>
      \<not> sublist ''Principal'' title \<and>
      \<not> sublist ''Android'' title \<and>
      \<not> sublist ''iOS'' title) \<and>
   (\<not> sublist ''Software Engineer'' title \<longrightarrow> \<not> titleFilter title)"
  by (simp add: titleFilter_def Contains_sublist)

theorem titleFilter_iff_witness:
  "titleFilter ''Software Engineer II'' \<and>
   \<not> titleFilter ''Senior Software Engineer'' \<and>
   \<not> sublist ''Software Engineer'' ''Staff software engineer'' \<and>
   \<not> titleFilter ''Staff software engineer''"
proof -
  have a: "titleFilter ''Software Engineer II''"
    using titleFilter_iff [of "''Software Engineer II''"]
    by (simp add: sublist_code)
  have b: "\<not> titleFilter ''Senior Software Engineer''"
    using titleFilter_iff [of "''Senior Software Engineer''"]
    by (simp add: sublist_code)
  have c: "\<not> sublist ''Software Engineer'' ''Staff software engineer''"
    by (simp add: sublist_code)
  have d: "\<not> titleFilter ''Staff software engineer''"
    using titleFilter_iff [of "''Staff software engineer''"] c by blast
  from a b c d show ?thesis by blast
qed

subsection \<open>C2: the loop stops after a page of fewer than ten items\<close>

text \<open>
  C2. Let the pages before page \<open>p\<close> have status 200 and ten raw items or more each,
  whatever the filter keeps of them, and let page \<open>p\<close> have status 200 and fewer than
  ten raw items. Then the loop ends at page \<open>p\<close>: it has requested the pages 1 to \<open>p\<close>
  and no other, the items of page \<open>p\<close> have gone through the filter like those of the
  pages before, and the run ends. The count that decides is the raw one: a page before
  \<open>p\<close> of which the filter keeps nothing does not end the loop, and page \<open>p\<close> ends it
  whatever the filter keeps of its items.
\<close>

theorem pagination_stops_after_short_page:
  assumes "list_all (full_page web) [1..<p]" and "1 \<le> p"
    and "web (pageURL p) = Response 200 (Document jobItems)"
    and "length jobItems < 10"
  shows "\<exists>out tr.
           collect web 1 [] [] =
             Some (Some (concat (map (\<lambda>q. kept (pageItems web q)) [1..<p]) @ kept jobItems), out) \<and>
           out = concat (map announce [1..<Suc p]) @
                 [Stdout (if length jobItems = 0
                          then ''No job listings found on this page; ending pagination.\<newline>''
                          else ''Fewer than 10 job items found; likely the last page.\<newline>'')] \<and>
           fetches out = map pageURL [1..<Suc p] \<and>
           main env web smtp = Some tr \<and> fetches tr = map pageURL [1..<Suc p]"
proof (cases "jobItems = []")
  case True
  with assms(3) have "web (pageURL p) = Response 200 (Document [])" by simp
  note c = collect_empty_page [OF assms(1,2) this]
  show ?thesis
    unfolding c main_sends [OF c] using True
    by (simp add: fetches_append announce_all_events report_events kept_def del: upt_Suc)
next
  case False
  then have "0 < length jobItems" by simp
  note c = collect_short_page [OF assms(1,2,3) this assms(4)]
  show ?thesis
    unfolding c main_sends [OF c] using False
    by (simp add: fetches_append announce_all_events report_events del: upt_Suc)
qed

theorem pagination_stops_after_short_page_witness:
  "collect (site (replicate 10 staff_item) (Response 200 (Document [engineer_item, senior_item])))
     1 [] [] =
   Some (Some [engineer_posting],
         announce 1 @ announce 2 @
         [Stdout ''Fewer than 10 job items found; likely the last page.\<newline>''])"
proof -
  let ?web = "site (replicate 10 staff_item) (Response 200 (Document [engineer_item, senior_item]))"
  have full: "list_all (full_page ?web) [1..<2]" by (rule site_first_full) simp
  have page2: "?web (pageURL 2) = Response 200 (Document [engineer_item, senior_item])"
    by (simp add: site_pages del: One_nat_def)
  have k1: "kept (replicate 10 staff_item) = []"
    by (simp add: kept_replicate kept_examples)
  have k2: "kept [engineer_item, senior_item] = [engineer_posting]"
    using kept_append [of "[engineer_item]" "[senior_item]"] by (simp add: kept_examples)
  from pagination_stops_after_short_page [where web = ?web and p = 2, OF full _ page2]
  show ?thesis
    by (simp add: upt_1_2 site_pageItems k1 k2 upt_rec [of 1 3] upt_rec [of 2 3] del: One_nat_def)
qed

subsection \<open>C3: the loop stops at a page without items\<close>

text \<open>
  C3. Let the pages before page \<open>p\<close> have status 200 and ten raw items or more each,
  however many, and let page \<open>p\<close> have status 200 and no item. Then the loop ends at
  page \<open>p\<close>, having requested the pages 1 to \<open>p\<close> and no other, with a \<^verbatim>\<open>break\<close>
  and not with \<^verbatim>\<open>log.Fatalf\<close>: the postings are those of the pages before \<open>p\<close>, none
  comes from page \<open>p\<close>, and the run goes on to mail them.
\<close>

theorem pagination_stops_at_empty_page:
  assumes "list_all (full_page web) [1..<p]" and "1 \<le> p"
    and "web (pageURL p) = Response 200 (Document [])"
  shows "\<exists>out tr.
           collect web 1 [] [] =
             Some (Some (concat (map (\<lambda>q. kept (pageItems web q)) [1..<p])), out) \<and>
           out = concat (map announce [1..<Suc p]) @
                 [Stdout ''No job listings found on this page; ending pagination.\<newline>''] \<and>
           fetches out = map pageURL [1..<Suc p] \<and>
           main env web smtp = Some tr \<and> fatals tr = [] \<and>
           mails tr = [mailCall env (concat (map (\<lambda>q. kept (pageItems web q)) [1..<p]))]"
proof -
  note c = collect_empty_page [OF assms]
  show ?thesis
    unfolding c main_sends [OF c]
    by (simp add: fetches_append fatals_append mails_append announce_all_events report_events
        del: upt_Suc)
qed

theorem pagination_stops_at_empty_page_witness:
  "collect (site (replicate 12 engineer_item) (Response 200 (Document []))) 1 [] [] =
   Some (Some (replicate 12 engineer_posting),
         announce 1 @ announce 2 @
         [Stdout ''No job listings found on this page; ending pagination.\<newline>''])"
proof -
  let ?web = "site (replicate 12 engineer_item) (Response 200 (Document []))"
  have full: "list_all (full_page ?web) [1..<2]" by (rule site_first_full) simp
  have page2: "?web (pageURL 2) = Response 200 (Document [])"
    by (simp add: site_pages del: One_nat_def)
  have k1: "kept (replicate 12 engineer_item) = replicate 12 engineer_posting"
    by (simp add: kept_replicate kept_examples)
  from pagination_stops_at_empty_page [where web = ?web and p = 2, OF full _ page2]
  show ?thesis
    by (simp add: upt_1_2 site_pageItems k1 upt_rec [of 1 3] upt_rec [of 2 3] del: One_nat_def)
qed

subsection \<open>The mail body\<close>

lemma fold_append_concat: "fold (\<lambda>x acc. acc @ g x) xs acc = acc @ concat (map g xs)"
  by (induction xs arbitrary: acc) simp_all

lemma composeBody_eq:
  "composeBody jobPostings =
     (if jobPostings = [] then notice else greeting) @
     concat (map postingLine jobPostings) @ footer"
  by (simp add: composeBody_def Let_def fold_append_concat notice_def greeting_def footer_def)

lemma splitLines_nonempty: "splitLines s \<noteq> []"
  by (induction s) (auto split: list.splits)

lemma splitLines_no_LF: "LF \<notin> set a \<Longrightarrow> splitLines (a @ LF # b) = a # splitLines b"
  by (induction a) (auto split: list.splits)

lemma splitLines_postingLine:
  assumes "LF \<notin> set (Title job)" "LF \<notin> set (URL job)"
  shows "splitLines (postingLine job @ b) = postingEntry job # splitLines b"
proof -
  have "LF \<notin> set (postingEntry job)" using assms by (auto simp: postingEntry_def LF_def)
  from splitLines_no_LF [OF this, of b] show ?thesis
    by (simp add: postingLine_def postingEntry_def LF_def)
qed

lemma splitLines_postingLines:
  assumes "\<forall>job\<in>set jobPostings. LF \<notin> set (Title job) \<and> LF \<notin> set (URL job)"
  shows "splitLines (concat (map postingLine jobPostings) @ b) =
         map postingEntry jobPostings @ splitLines b"
  using assms by (induction jobPostings) (simp_all add: splitLines_postingLine)

lemma splitLines_footer:
  "splitLines footer =
     ['''', '' You can find more job postings at https://careers.airbnb.com/positions/?_departments=engineering&_offices=united-states'',
      '''', ''Best regards,'', ''Your Job Scraper'']"
  by (simp add: footer_def LF_def)

lemma splitLines_greeting:
  "splitLines (greeting @ b) =
     [''Hello,'', '''', ''Here are today's midlevel Software Engineer job postings:'', ''''] @ splitLines b"
  by (simp add: greeting_def LF_def)

lemma splitLines_notice:
  "splitLines (notice @ b) =
     [''Hello,'', '''', ''No current job postings found today.''] @ splitLines b"
  by (simp add: notice_def LF_def)

lemma postingEntry_prefix: "prefix ''- '' (postingEntry job)"
  by (simp add: postingEntry_def)

lemma filter_entries: "filter (prefix ''- '') (map postingEntry jobPostings) = map postingEntry jobPostings"
  by (induction jobPostings) (simp_all add: postingEntry_prefix)

subsection \<open>C4: one line per posting, in order\<close>

text \<open>
  C4 says that for every list of \<open>N\<close> postings the body has exactly \<open>N\<close> lines of the
  form \<open>- <title>: <url>\<close>. It has not when a title holds a line feed, which trimming
  leaves in place inside a title: the item with the link text
  \<open>Software Engineer: a\<close>, line feed, \<open>- b\<close> and the link \<open>c\<close> passes the filter, and
  the body for its posting alone has two lines that begin with \<open>- \<close>, namely
  \<open>- Software Engineer: a\<close> and \<open>- b: c\<close>, neither of them the line of the posting.
\<close>

theorem body_line_count_fails_on_line_feed:
  "kept [split_item] = [split_posting] \<and>
   filter (prefix ''- '') (splitLines (composeBody [split_posting])) =
     [''- Software Engineer: a'', ''- b: c''] \<and>
   length (filter (prefix ''- '') (splitLines (composeBody [split_posting]))) = 2"
proof -
  have k: "kept [split_item] = [split_posting]"
    by (simp add: kept_def postingOf_def split_item_def split_posting_def TrimSpace_ascii
        IsSpace_def titleFilter_def)
  have "splitLines (composeBody [split_posting]) =
      [''Hello,'', '''', ''Here are today's midlevel Software Engineer job postings:'', ''''] @
      splitLines (postingLine split_posting @ footer)"
    by (simp add: composeBody_eq splitLines_greeting)
  also have "splitLines (postingLine split_posting @ footer) =
      [''- Software Engineer: a'', ''- b: c'', '''',
       '' You can find more job postings at https://careers.airbnb.com/positions/?_departments=engineering&_offices=united-states'',
       '''', ''Best regards,'', ''Your Job Scraper'']"
    by (simp add: postingLine_def split_posting_def footer_def LF_def)
  finally have l: "filter (prefix ''- '') (splitLines (composeBody [split_posting])) =
      [''- Software Engineer: a'', ''- b: c'']"
    by simp
  from k l show ?thesis by simp
qed

text \<open>
  C4, amended. For a list of \<open>N\<close> postings, \<open>N\<close> at least 1, of which no title and no
  link holds a line feed, the lines of the body are the four lines of the greeting, then
  one line \<open>- <title>: <url>\<close> for each posting, in the order of the list, then the five
  lines of the footer. These \<open>N\<close> lines are the only lines of the body that begin with
  \<open>- \<close>.
\<close>

theorem body_lists_postings:
  assumes "jobPostings \<noteq> []"
    and "\<forall>job\<in>set jobPostings. LF \<notin> set (Title job) \<and> LF \<notin> set (URL job)"
  shows "splitLines (composeBody jobPostings) =
           [''Hello,'', '''', ''Here are today's midlevel Software Engineer job postings:'', ''''] @
           map (\<lambda>job. ''- '' @ Title job @ '': '' @ URL job) jobPostings @
           ['''', '' You can find more job postings at https://careers.airbnb.com/positions/?_departments=engineering&_offices=united-states'',
            '''', ''Best regards,'', ''Your Job Scraper''] \<and>
         filter (prefix ''- '') (splitLines (composeBody jobPostings)) =
           map (\<lambda>job. ''- '' @ Title job @ '': '' @ URL job) jobPostings \<and>
         length (filter (prefix ''- '') (splitLines (composeBody jobPostings))) = length jobPostings"
proof -
  have eq: "composeBody jobPostings = greeting @ concat (map postingLine jobPostings) @ footer"
    using assms(1) by (simp add: composeBody_eq)
  have sl: "splitLines (composeBody jobPostings) =
      [''Hello,'', '''', ''Here are today's midlevel Software Engineer job postings:'', ''''] @
      map postingEntry jobPostings @ splitLines footer"
    unfolding eq splitLines_greeting splitLines_postingLines [OF assms(2)] ..
  then have fl: "filter (prefix ''- '') (splitLines (composeBody jobPostings)) =
      map postingEntry jobPostings"
    by (simp add: splitLines_footer filter_entries)
  have pe: "map postingEntry jobPostings =
      map (\<lambda>job. ''- '' @ Title job @ '': '' @ URL job) jobPostings"
    by (simp add: postingEntry_def)
  from sl fl show ?thesis unfolding pe splitLines_footer by simp
qed

theorem body_lists_postings_witness:
  "filter (prefix ''- '')
     (splitLines (composeBody [engineer_posting, \<lparr>Title = ''Software Engineer, Payments'', URL = ''''\<rparr>])) =
     [''- Software Engineer II: /positions/1/'', ''- Software Engineer, Payments: ''] \<and>
   length (filter (prefix ''- '')
     (splitLines (composeBody [engineer_posting, \<lparr>Title = ''Software Engineer, Payments'', URL = ''''\<rparr>]))) = 2"
proof -
  let ?jobs = "[engineer_posting, \<lparr>Title = ''Software Engineer, Payments'', URL = ''''\<rparr>]"
  have ne: "?jobs \<noteq> []" by simp
  have nl: "\<forall>job\<in>set ?jobs. LF \<notin> set (Title job) \<and> LF \<notin> set (URL job)"
    by (simp add: engineer_posting_def LF_def)
  from body_lists_postings [OF ne nl]
  have b: "filter (prefix ''- '') (splitLines (composeBody ?jobs)) =
      map (\<lambda>job. ''- '' @ Title job @ '': '' @ URL job) ?jobs"
    by blast
  have d: "map (\<lambda>job. ''- '' @ Title job @ '': '' @ URL job) ?jobs =
      [''- Software Engineer II: /positions/1/'', ''- Software Engineer, Payments: '']"
    by (simp add: engineer_posting_def)
  from b show ?thesis unfolding d by simp
qed

subsection \<open>C5: the body for no posting\<close>

text \<open>
  C5. For the empty list the body is the notice and the footer: it holds the sentence
  \<open>No current job postings found today.\<close>, no entry of a posting is written, and no
  line of the body begins with \<open>- \<close>, so none has the form \<open>- <title>: <url>\<close>.
\<close>

theorem empty_body_has_notice:
  "composeBody [] = notice @ footer \<and>
   sublist ''No current job postings found today.'' (composeBody []) \<and>
   filter (prefix ''- '') (splitLines (composeBody [])) = []"
proof -
  have eq: "composeBody [] = notice @ footer" by (simp add: composeBody_eq)
  have "sublist ''No current job postings found today.'' (''Hello,\<newline>\<newline>'' @ ''No current job postings found today.'' @ (''\<newline>'' @ footer))"
    by (rule sublist_appendI)
  then have "sublist ''No current job postings found today.'' (composeBody [])"
    unfolding eq notice_def by simp
  moreover have "filter (prefix ''- '') (splitLines (composeBody [])) = []"
    unfolding eq splitLines_notice by (simp add: splitLines_footer)
  ultimately show ?thesis using eq by simp
qed

subsection \<open>C6: reading the message back\<close>

lemma readLine_CRLF: "LF \<notin> set a \<Longrightarrow> readLine (a @ CRLF @ b) = (a, b)"
proof -
  assume a: "LF \<notin> set a"
  have "takeWhile (\<lambda>c. c \<noteq> LF) (a @ (CR # LF # b)) = a @ takeWhile (\<lambda>c. c \<noteq> LF) (CR # LF # b)"
    by (rule takeWhile_append2) (use a in auto)
  then have "takeWhile (\<lambda>c. c \<noteq> LF) (a @ CRLF @ b) = a @ [CR]"
    by (simp add: CRLF_def CR_def LF_def)
  then show ?thesis by (simp add: readLine_def Let_def CRLF_def CR_def)
qed

lemma continued_stop: "s = [] \<or> \<not> blank (hd s) \<Longrightarrow> continued kv s = (kv, s)"
  by (subst continued.simps) auto

lemma trim_id: "s = [] \<or> \<not> blank (hd s) \<and> \<not> blank (last s) \<Longrightarrow> trim s = s"
proof (cases "s = []")
  case True
  then show ?thesis by (simp add: trim_def)
next
  case False
  assume "s = [] \<or> \<not> blank (hd s) \<and> \<not> blank (last s)"
  with False have h: "\<not> blank (hd s)" and l: "\<not> blank (last s)" by simp_all
  from False h have "dropWhile blank s = s" by (cases s) simp_all
  moreover from False l have "dropWhile blank (rev s) = rev s"
    by (cases "rev s") (simp_all add: last_rev [symmetric] hd_rev)
  ultimately show ?thesis by (simp add: trim_def)
qed

lemma valid_no_LF: "list_all validHeaderValueByte s \<Longrightarrow> LF \<notin> set s"
  by (auto simp: list_all_iff validHeaderValueByte_def LF_def)

text \<open>A header line \<open>key: value\<close> is read back as the key and the value.\<close>
lemma field_parse:
  assumes key: "key \<noteq> []" "CHR '':'' \<notin> set key" "\<not> blank (hd key)"
    and v: "v = [] \<or> \<not> blank (hd v) \<and> \<not> blank (last v)"
    and valid: "list_all validHeaderValueByte v"
  defines "kv \<equiv> trim (key @ '': '' @ v)"
  shows "kv \<noteq> [] \<and> CHR '':'' \<in> set kv \<and> takeWhile (\<lambda>c. c \<noteq> CHR '':'') kv = key \<and>
         dropWhile blank (drop (Suc (length key)) kv) = v \<and>
         list_all validHeaderValueByte (drop (Suc (length key)) kv)"
proof (cases "v = []")
  case True
  have "dropWhile blank (key @ '': '') = key @ '': ''" using key by (cases key) simp_all
  then have "kv = key @ '':''" using True by (simp add: kv_def trim_def blank_def)
  with key True show ?thesis by (auto simp: takeWhile_tail)
next
  case False
  with v have "\<not> blank (last (key @ '': '' @ v))" by simp
  moreover from key have "\<not> blank (hd (key @ '': '' @ v))" by simp
  ultimately have "kv = key @ '': '' @ v" unfolding kv_def by (intro trim_id) simp
  moreover from False v have "dropWhile blank v = v" by (cases v) simp_all
  ultimately show ?thesis using key valid
    by (auto simp: takeWhile_tail blank_def validHeaderValueByte_def)
qed

lemma readHeader_field:
  assumes key: "key \<noteq> []" "CHR '':'' \<notin> set key" "\<not> blank (hd key)" "LF \<notin> set key"
    and v: "clean v" and b: "b = [] \<or> \<not> blank (hd b)"
  shows "readHeader (key @ '': '' @ v @ CRLF @ b) hdr = readHeader b (hdr @ [(key, v)])"
proof -
  define line where "line = key @ '': '' @ v"
  have "LF \<notin> set line" using key v valid_no_LF [of v] by (simp add: line_def clean_def LF_def)
  note rl = readLine_CRLF [OF this, of b]
  from v have v': "v = [] \<or> \<not> blank (hd v) \<and> \<not> blank (last v)"
    and valid: "list_all validHeaderValueByte v" by (simp_all add: clean_def)
  note fp = field_parse [OF key(1,2,3) v' valid, folded line_def]
  have ne: "line \<noteq> []" using key by (simp add: line_def)
  have "readHeader (line @ CRLF @ b) hdr = readHeader b (hdr @ [(key, v)])"
    by (subst readHeader.simps) (simp add: rl ne continued_stop [OF b] fp)
  then show ?thesis by (simp add: line_def)
qed

lemma readHeader_blank_line: "readHeader (CRLF @ b) hdr = Some (hdr, b)"
proof -
  have "readLine ([] @ CRLF @ b) = ([], b)" by (rule readLine_CRLF) simp
  then show ?thesis by (subst readHeader.simps) (simp add: CRLF_def)
qed

lemma ReadMessage_composeMessage:
  assumes "clean from" and "clean to" and "clean subject"
  shows "ReadMessage (composeMessage from to subject body) =
     Some \<lparr>Header = [(''From'', from), (''To'', to), (''Subject'', subject)], Body = body\<rparr>"
proof -
  have "readHeader (composeMessage from to subject body) [] =
      readHeader (''To'' @ '': '' @ to @ CRLF @ ''Subject: '' @ subject @ CRLF @ CRLF @ body)
        ([] @ [(''From'', from)])"
    unfolding composeMessage_def
    using readHeader_field [of "''From''" "from" "''To: '' @ to @ CRLF @ ''Subject: '' @ subject @ CRLF @ CRLF @ body" "[]"]
      assms(1)
    by (simp add: blank_def LF_def)
  also have "\<dots> = readHeader (''Subject'' @ '': '' @ subject @ CRLF @ CRLF @ body)
        (([] @ [(''From'', from)]) @ [(''To'', to)])"
    using readHeader_field [of "''To''" "to" "''Subject: '' @ subject @ CRLF @ CRLF @ body" "[] @ [(''From'', from)]"]
      assms(2)
    by (simp add: blank_def LF_def)
  also have "\<dots> = readHeader (CRLF @ body) ((([] @ [(''From'', from)]) @ [(''To'', to)]) @ [(''Subject'', subject)])"
    using readHeader_field [of "''Subject''" "subject" "CRLF @ body" "([] @ [(''From'', from)]) @ [(''To'', to)]"]
      assms(3)
    by (simp add: blank_def LF_def CRLF_def)
  also have "\<dots> = Some ([(''From'', from), (''To'', to), (''Subject'', subject)], body)"
    by (simp add: readHeader_blank_line)
  finally show ?thesis by (simp add: ReadMessage_def composeMessage_def blank_def)
qed

lemma call_msg_mailCall:
  "call_msg (mailCall env jobPostings) =
     composeMessage (Getenv env ''FROM_EMAIL'') (Getenv env ''TO_EMAIL'') ''Daily Job Postings''
       (composeBody jobPostings)"
  by (simp add: mailCall_def Let_def)

lemma clean_subject: "clean ''Daily Job Postings''"
  by (simp add: clean_def validHeaderValueByte_def blank_def)

text \<open>
  C6 says that for every sender address the reader recovers what was composed. It does
  not when the address holds a line break: for the sender \<open>x@example.com\<close> followed by
  two line breaks and \<open>y\<close>, the header ends after the first line, the reader returns
  the sender \<open>x@example.com\<close> and no recipient or subject, and the body begins with
  \<open>y\<close> and the rest of the header.
\<close>

theorem message_round_trip_fails_on_line_break:
  "ReadMessage (call_msg (mailCall injected_env [])) =
     Some \<lparr>Header = [(''From'', ''x@example.com'')],
           Body = ''y'' @ CRLF @ ''To: you@example.com'' @ CRLF @ ''Subject: Daily Job Postings'' @
                  CRLF @ CRLF @ composeBody []\<rparr> \<and>
   Getenv injected_env ''FROM_EMAIL'' \<noteq> ''x@example.com'' \<and>
   ''y'' @ CRLF @ ''To: you@example.com'' @ CRLF @ ''Subject: Daily Job Postings'' @
     CRLF @ CRLF @ composeBody [] \<noteq> composeBody []"
proof -
  let ?rest = "''y'' @ CRLF @ ''To: you@example.com'' @ CRLF @ ''Subject: Daily Job Postings'' @
     CRLF @ CRLF @ composeBody []"
  have msg: "call_msg (mailCall injected_env []) = ''From'' @ '': '' @ ''x@example.com'' @ CRLF @ (CRLF @ ?rest)"
    by (simp add: call_msg_mailCall composeMessage_def injected_env_def Getenv_def)
  have "readHeader (''From'' @ '': '' @ ''x@example.com'' @ CRLF @ (CRLF @ ?rest)) [] =
      readHeader (CRLF @ ?rest) ([] @ [(''From'', ''x@example.com'')])"
    by (rule readHeader_field)
      (simp_all add: clean_def validHeaderValueByte_def LF_def blank_def CRLF_def)
  also have "\<dots> = Some ([(''From'', ''x@example.com'')], ?rest)"
    by (simp add: readHeader_blank_line)
  finally have "ReadMessage (call_msg (mailCall injected_env [])) =
      Some \<lparr>Header = [(''From'', ''x@example.com'')], Body = ?rest\<rparr>"
    unfolding msg by (simp add: ReadMessage_def blank_def)
  moreover have "Getenv injected_env ''FROM_EMAIL'' \<noteq> ''x@example.com''"
    by (simp add: injected_env_def Getenv_def)
  moreover have "length ?rest \<noteq> length (composeBody [])" by simp
  then have "?rest \<noteq> composeBody []" by metis
  ultimately show ?thesis by blast
qed

text \<open>
  C6, amended. When the sender address and the recipient address hold no carriage
  return, no line feed and no other control character than the tab, and neither begins
  nor ends with a space or a tab, the reader
  recovers from the message that \<^verbatim>\<open>sendDailyJobEmail\<close> submits the header fields
  \<open>From\<close>, \<open>To\<close> and \<open>Subject\<close> with the values composed, and the body as composed,
  for every list of postings.
\<close>

theorem message_round_trip:
  assumes "clean (Getenv env ''FROM_EMAIL'')" and "clean (Getenv env ''TO_EMAIL'')"
  shows "\<exists>m. ReadMessage (call_msg (mailCall env jobPostings)) = Some m \<and>
             Header m = [(''From'', Getenv env ''FROM_EMAIL''), (''To'', Getenv env ''TO_EMAIL''),
                         (''Subject'', ''Daily Job Postings'')] \<and>
             Get m ''From'' = Getenv env ''FROM_EMAIL'' \<and>
             Get m ''To'' = Getenv env ''TO_EMAIL'' \<and>
             Get m ''Subject'' = ''Daily Job Postings'' \<and>
             Body m = composeBody jobPostings"
  unfolding call_msg_mailCall ReadMessage_composeMessage [OF assms clean_subject]
  by (simp add: Get_def)

theorem message_round_trip_witness:
  "ReadMessage (call_msg (mailCall clean_env [engineer_posting])) =
     Some \<lparr>Header = [(''From'', ''me@example.com''), (''To'', ''you@example.com''),
                      (''Subject'', ''Daily Job Postings'')],
           Body = composeBody [engineer_posting]\<rparr>"
proof -
  have f: "Getenv clean_env ''FROM_EMAIL'' = ''me@example.com''"
    and t: "Getenv clean_env ''TO_EMAIL'' = ''you@example.com''"
    by (simp_all add: clean_env_def Getenv_def)
  have "clean (Getenv clean_env ''FROM_EMAIL'')" "clean (Getenv clean_env ''TO_EMAIL'')"
    unfolding f t by (simp_all add: clean_def validHeaderValueByte_def blank_def)
  from message_round_trip [OF this, of "[engineer_posting]"]
  show ?thesis unfolding f t by auto
qed

subsection \<open>C7: the parameters of the delivery\<close>

text \<open>
  C7 says that the sender address, the recipient address, the credential and the relay
  host and port all come from outside the program. The relay host and port do not: with
  nothing set in the environment, and with other values offered in it, the submission
  goes to \<open>smtp.gmail.com:587\<close> and authenticates for the host \<open>smtp.gmail.com\<close>.
\<close>

theorem relay_host_and_port_are_fixed:
  "call_addr (mailCall Map.empty []) = ''smtp.gmail.com:587'' \<and>
   auth_host (call_auth (mailCall Map.empty [])) = ''smtp.gmail.com'' \<and>
   call_addr (mailCall [''SMTP_HOST'' \<mapsto> ''mail.example.org'', ''SMTP_PORT'' \<mapsto> ''2525''] []) =
     ''smtp.gmail.com:587''"
  by (simp add: mailCall_def Let_def)

text \<open>
  C7, amended. The sender address, the recipient address and the credential are read
  from the environment variables \<open>FROM_EMAIL\<close>, \<open>TO_EMAIL\<close> and
  \<open>GOOGLE_APP_PASSWORD\<close> (a variable that is not set reads as the empty string); the
  relay host and port are the literals \<open>smtp.gmail.com\<close> and \<open>587\<close>; and the one
  submission of \<^verbatim>\<open>sendDailyJobEmail\<close> uses exactly these values, whatever the relay
  answers.
\<close>

theorem delivery_parameters:
  "call_from (mailCall env jobPostings) = Getenv env ''FROM_EMAIL'' \<and>
   call_to (mailCall env jobPostings) = [Getenv env ''TO_EMAIL''] \<and>
   call_auth (mailCall env jobPostings) =
     \<lparr>auth_identity = '''', auth_username = Getenv env ''FROM_EMAIL'',
      auth_password = Getenv env ''GOOGLE_APP_PASSWORD'', auth_host = ''smtp.gmail.com''\<rparr> \<and>
   call_addr (mailCall env jobPostings) = ''smtp.gmail.com:587'' \<and>
   snd (sendDailyJobEmail env smtp jobPostings) = [SendMail (mailCall env jobPostings)]"
  by (simp add: mailCall_def sendDailyJobEmail_def Let_def)

subsection \<open>C8: a fatal collection error ends the run\<close>

text \<open>
  C8. Let the pages before page \<open>p\<close> have status 200 and ten items or more each, and
  let page \<open>p\<close> fail: the request returns an error, or the status is not 200, or the
  HTML parser returns an error. Then the run ends with the call of \<^verbatim>\<open>log.Fatalf\<close>
  right after its events for the pages 1 to \<open>p\<close>: each of these pages is requested
  once, page \<open>p\<close> is not requested again, no page after \<open>p\<close> is requested, and no mail
  is submitted, whatever postings the pages before \<open>p\<close> have yielded.
\<close>

theorem fatal_error_halts:
  assumes "list_all (full_page web) [1..<p]" and "1 \<le> p" and "fatal_page web p"
  shows "\<exists>m tr.
           main env web smtp = Some tr \<and>
           tr = concat (map announce [1..<Suc p]) @ [Fatalf m] \<and>
           fetches tr = map pageURL [1..<Suc p] \<and>
           mails tr = []"
proof -
  from collect_fatal [OF assms(3)] obtain m where
    "collect web p (concat (map (\<lambda>q. kept (pageItems web q)) [1..<p]))
       (concat (map announce [1..<p])) =
     Some (None, concat (map announce [1..<p]) @ announce p @ [Fatalf m])"
    by blast
  then have c: "collect web 1 [] [] =
      Some (None, concat (map announce [1..<Suc p]) @ [Fatalf m])"
    unfolding collect_upto [OF assms(1,2)] upt_snoc [OF assms(2)] by simp
  show ?thesis
    unfolding main_fatal [OF c]
    by (simp add: fetches_append mails_append announce_all_events del: upt_Suc)
qed

theorem fatal_error_halts_witness:
  "kept (replicate 12 engineer_item) = replicate 12 engineer_posting \<and>
   (\<exists>m. main Map.empty (site (replicate 12 engineer_item) (Response 503 (Document [])))
          accepting_relay =
        Some (announce 1 @ announce 2 @ [Fatalf m]))"
proof -
  let ?web = "site (replicate 12 engineer_item) (Response 503 (Document []))"
  have full: "list_all (full_page ?web) [1..<2]" by (rule site_first_full) simp
  have fatal: "fatal_page ?web 2" by (simp add: fatal_page_def site_pages del: One_nat_def)
  have k1: "kept (replicate 12 engineer_item) = replicate 12 engineer_posting"
    by (simp add: kept_replicate kept_examples)
  from fatal_error_halts [where web = ?web and p = 2, OF full _ fatal, of Map.empty accepting_relay]
  have "\<exists>m. main Map.empty ?web accepting_relay = Some (announce 1 @ announce 2 @ [Fatalf m])"
    by (auto simp add: upt_rec [of 1 3] upt_rec [of 2 3] simp del: One_nat_def)
  with k1 show ?thesis by blast
qed

subsection \<open>C9: a delivery error is returned and dropped\<close>

text \<open>
  C9. When the relay answers the submission with an error, whatever the error,
  \<^verbatim>\<open>sendDailyJobEmail\<close> returns this error to its caller after a single call of
  \<^verbatim>\<open>smtp.SendMail\<close>, and \<^verbatim>\<open>main\<close> drops it: the events of the run are those of
  the run in which the relay accepts the mail, so that nothing the program writes
  shows the failure.
\<close>

theorem delivery_error_returned_and_dropped:
  assumes "smtp (mailCall env jobPostings) = Some err"
  shows "sendDailyJobEmail env smtp jobPostings = (Some err, [SendMail (mailCall env jobPostings)]) \<and>
         mails (snd (sendDailyJobEmail env smtp jobPostings)) = [mailCall env jobPostings] \<and>
         main env web smtp = main env web (\<lambda>call. None)"
  using assms
  by (simp add: sendDailyJobEmail_def main_def Let_def split: option.splits prod.splits)

theorem delivery_error_returned_and_dropped_witness:
  "sendDailyJobEmail Map.empty rejecting_relay [engineer_posting] =
     (Some ''535 5.7.8 Username and Password not accepted'',
      [SendMail (mailCall Map.empty [engineer_posting])]) \<and>
   main Map.empty (site [engineer_item] (GetError '''')) rejecting_relay =
   main Map.empty (site [engineer_item] (GetError '''')) (\<lambda>call. None)"
proof -
  have "rejecting_relay (mailCall Map.empty [engineer_posting]) =
      Some ''535 5.7.8 Username and Password not accepted''"
    by (simp add: rejecting_relay_def)
  from delivery_error_returned_and_dropped [where smtp = rejecting_relay and env = Map.empty
      and jobPostings = "[engineer_posting]", OF this]
  show ?thesis by blast
qed

subsection \<open>C10: the accumulated postings\<close>

lemma trimmed_TrimSpace: "trimmed (TrimSpace s)"
  by (simp add: trimmed_def TrimSpace_first TrimSpace_last)

lemma kept_accepted: "list_all accepted (kept jobItems)"
  by (induction jobItems) (simp_all add: kept_def postingOf_def accepted_def trimmed_TrimSpace)

lemma fold_visit_kept: "fold visit jobItems allJobs = allJobs @ kept jobItems"
  using Each_kept [of jobItems allJobs] by (simp add: Each_def)

lemma loop_head_page: "loop_head web n = Some (page, allJobs) \<Longrightarrow> page = Suc n"
proof (induction n arbitrary: page allJobs)
  case 0
  then show ?case by simp
next
  case (Suc n)
  then show ?case
    by (auto split: option.splits prod.splits http_result.splits document.splits if_splits)
qed

lemma loop_head_accepted: "loop_head web n = Some (page, allJobs) \<Longrightarrow> list_all accepted allJobs"
proof (induction n arbitrary: page allJobs)
  case 0
  then show ?case by simp
next
  case (Suc n)
  then show ?case
    by (auto simp: Each_kept kept_accepted
        split: option.splits prod.splits http_result.splits document.splits if_splits)
qed

lemma loop_head_Suc_prefix:
  "loop_head web (Suc n) = Some (page, allJobs) \<Longrightarrow>
   \<exists>page' allJobs'. loop_head web n = Some (page', allJobs') \<and> prefix allJobs' allJobs"
  by (auto simp: Each_kept
      split: option.splits prod.splits http_result.splits document.splits if_splits)

lemma loop_head_prefix:
  "loop_head web n = Some (page, allJobs) \<Longrightarrow> m \<le> n \<Longrightarrow>
   \<exists>page' allJobs'. loop_head web m = Some (page', allJobs') \<and> prefix allJobs' allJobs"
proof (induction n arbitrary: page allJobs)
  case 0
  then show ?case by simp
next
  case (Suc n)
  show ?case
  proof (cases "m = Suc n")
    case True
    with Suc.prems(1) show ?thesis by simp
  next
    case False
    with Suc.prems(2) have le: "m \<le> n" by simp
    from loop_head_Suc_prefix [OF Suc.prems(1)] obtain page1 jobs1
      where h: "loop_head web n = Some (page1, jobs1)" and p: "prefix jobs1 allJobs" by blast
    from Suc.IH [OF h le] obtain page' allJobs'
      where "loop_head web m = Some (page', allJobs')" and "prefix allJobs' jobs1" by blast
    with p show ?thesis by (auto intro: prefix_order.trans)
  qed
qed

text \<open>The states of \<open>loop_head\<close> are those the loop goes through.\<close>
lemma loop_head_collect:
  "loop_head web n = Some (page, allJobs) \<Longrightarrow>
   collect web 1 [] [] = collect web page allJobs (concat (map announce [1..<page]))"
proof (induction n arbitrary: page allJobs)
  case 0
  then show ?case by simp
next
  case (Suc n)
  from Suc.prems obtain page1 jobs1 StatusCode jobItems where
    h: "loop_head web n = Some (page1, jobs1)"
    and w: "web (pageURL page1) = Response StatusCode (Document jobItems)"
    and c: "StatusCode = 200" "10 \<le> length jobItems"
    and r: "page = page1 + 1" "allJobs = Each jobItems jobs1"
    by (auto split: option.splits prod.splits http_result.splits document.splits if_splits)
  from loop_head_page [OF h] have p1: "page1 = Suc n" .
  from w c have "web (pageURL page1) = Response 200 (Document jobItems)" by simp
  from collect_full [where web = web and page = page1, OF this c(2)] Suc.IH [OF h]
  show ?case unfolding r p1 by simp
qed

lemma collect_result_accepted_aux:
  assumes c: "collect web page allJobs out = Some r"
  shows "list_all accepted allJobs \<longrightarrow>
     (\<forall>jobs. fst r = Some jobs \<longrightarrow> list_all accepted jobs \<and> prefix allJobs jobs)"
proof (rule collect.raw_induct [where P = "\<lambda>web page allJobs out r. list_all accepted allJobs \<longrightarrow>
     (\<forall>jobs. fst r = Some jobs \<longrightarrow> list_all accepted jobs \<and> prefix allJobs jobs)", OF _ c])
  fix collect' :: "web \<Rightarrow> nat \<Rightarrow> JobPosting list \<Rightarrow> event list \<Rightarrow> (JobPosting list option \<times> event list) option"
    and web page allJobs out r
  assume IH: "\<And>web page allJobs out r. collect' web page allJobs out = Some r \<Longrightarrow>
      list_all accepted allJobs \<longrightarrow>
        (\<forall>jobs. fst r = Some jobs \<longrightarrow> list_all accepted jobs \<and> prefix allJobs jobs)"
    and body: "(let url = pageURL page;
          out = out @ [Stdout (''Fetching page '' @ Itoa page @ '': '' @ url @ ''\<newline>''),
                       HttpGet url]
      in case web url of
           GetError err \<Rightarrow>
             Some (None, out @ [Fatalf (''Error fetching page '' @ Itoa page @ '': '' @ err)])
         | Response StatusCode body \<Rightarrow>
             if StatusCode \<noteq> 200 then
               Some (None, out @ [Fatalf (''Non-200 HTTP status on page '' @ Itoa page @ '': '' @
                                            Itoa StatusCode)])
             else
               (case body of
                  ParseError err \<Rightarrow>
                    Some (None, out @ [Fatalf (''Error parsing HTML on page '' @ Itoa page @
                                                 '': '' @ err)])
                | Document jobItems \<Rightarrow>
                    if length jobItems = 0 then
                      Some (Some allJobs,
                            out @ [Stdout ''No job listings found on this page; ending pagination.\<newline>''])
                    else
                      let allJobs = Each jobItems allJobs in
                      if length jobItems < 10 then
                        Some (Some allJobs,
                              out @ [Stdout ''Fewer than 10 job items found; likely the last page.\<newline>''])
                      else collect' web (page + 1) allJobs out)) = Some r"
  show "list_all accepted allJobs \<longrightarrow>
     (\<forall>jobs. fst r = Some jobs \<longrightarrow> list_all accepted jobs \<and> prefix allJobs jobs)"
  proof (cases "web (pageURL page)")
    case (GetError err)
    with body show ?thesis by (auto simp: Let_def)
  next
    case (Response StatusCode body')
    show ?thesis
    proof (cases body')
      case (ParseError err)
      with Response body show ?thesis by (auto simp: Let_def split: if_splits)
    next
      case (Document jobItems)
      show ?thesis
      proof (cases "StatusCode = 200 \<and> 10 \<le> length jobItems")
        case False
        with Response Document body show ?thesis
          by (auto simp: Let_def Each_kept kept_accepted split: if_splits)
      next
        case True
        with Response Document body
        have "collect' web (page + 1) (Each jobItems allJobs)
            (out @ [Stdout (''Fetching page '' @ Itoa page @ '': '' @ pageURL page @ ''\<newline>''),
                    HttpGet (pageURL page)]) = Some r"
          by (auto simp: Let_def split: if_splits)
        from IH [OF this]
        show ?thesis by (auto simp: Each_kept kept_accepted dest: append_prefixD)
      qed
    qed
  qed
qed

lemma collect_result_accepted:
  "collect web page allJobs out = Some (Some jobs, out') \<Longrightarrow> list_all accepted allJobs \<Longrightarrow>
   list_all accepted jobs \<and> prefix allJobs jobs"
  using collect_result_accepted_aux [of web page allJobs out "(Some jobs, out')"] by simp

text \<open>
  C10. Let the loop be at the head of an iteration, with the list \<open>allJobs\<close>. Every
  posting of the list passes the title filter and has a title without white space at
  either end. This stays so while the callback runs on the items of a page: after any
  number \<open>k\<close> of items the list is the former list with postings appended that have
  the same property. The list at the head of an earlier iteration is a prefix of
  \<open>allJobs\<close>, and \<open>allJobs\<close> is a prefix of the list that the loop returns when it ends
  with a \<^verbatim>\<open>break\<close>, whose postings have the property: postings of earlier pages come
  before those of later pages, and none is removed or changed.
\<close>

theorem accumulated_postings_invariant:
  assumes "loop_head web n = Some (page, allJobs)"
  shows "list_all accepted allJobs \<and>
         list_all accepted (fold visit (take k jobItems) allJobs) \<and>
         prefix allJobs (fold visit (take k jobItems) allJobs) \<and>
         (\<forall>m \<le> n. \<exists>page' allJobs'.
             loop_head web m = Some (page', allJobs') \<and> prefix allJobs' allJobs) \<and>
         (\<forall>jobs out. collect web 1 [] [] = Some (Some jobs, out) \<longrightarrow>
             list_all accepted jobs \<and> prefix allJobs jobs)"
proof -
  note acc = loop_head_accepted [OF assms]
  have "list_all accepted (fold visit (take k jobItems) allJobs)"
    using acc by (simp add: fold_visit_kept kept_accepted)
  moreover have "prefix allJobs (fold visit (take k jobItems) allJobs)"
    by (simp add: fold_visit_kept)
  moreover have "\<forall>m \<le> n. \<exists>page' allJobs'.
      loop_head web m = Some (page', allJobs') \<and> prefix allJobs' allJobs"
    using loop_head_prefix [OF assms] by blast
  moreover have "\<forall>jobs out. collect web 1 [] [] = Some (Some jobs, out) \<longrightarrow>
      list_all accepted jobs \<and> prefix allJobs jobs"
    unfolding loop_head_collect [OF assms] using collect_result_accepted [OF _ acc] by blast
  ultimately show ?thesis using acc by blast
qed

theorem accumulated_postings_invariant_witness:
  "loop_head (site (replicate 12 engineer_item) (Response 200 (Document []))) (Suc 0) =
     Some (2, replicate 12 engineer_posting) \<and>
   list_all accepted (replicate 12 engineer_posting) \<and>
   list_all accepted (fold visit (take 1 [engineer_item, senior_item]) (replicate 12 engineer_posting))"
proof -
  let ?web = "site (replicate 12 engineer_item) (Response 200 (Document []))"
  have k1: "kept (replicate 12 engineer_item) = replicate 12 engineer_posting"
    by (simp add: kept_replicate kept_examples)
  have h: "loop_head ?web (Suc 0) = Some (2, replicate 12 engineer_posting)"
    by (simp add: site_pages Each_kept k1 del: One_nat_def)
  from accumulated_postings_invariant [OF h, of 1 "[engineer_item, senior_item]"] h
  show ?thesis by blast
qed

end
